theory Spec2Isabelle
  imports Main "HOL-Library.Char_ord" "HOL-Library.List_Lexorder"
begin

section \<open>Mood journal: local store, sync coordinator, cache manager\<close>

text \<open>
  A shallow embedding of \<^verbatim>\<open>src/app.js\<close> (the \<^verbatim>\<open>DB\<close> and \<^verbatim>\<open>NetworkStatus\<close> modules and the
  save handler) and of \<^verbatim>\<open>src/sw.js\<close> (the service worker). The browser services the code
  calls (IndexedDB, the network, the Cache API, the service-worker lifecycle) are the
  environment: their answers are parameters of the model, their state is explicit.
\<close>

subsection \<open>Values and entries\<close>

text \<open>
  The JavaScript values that the code compares with \<^verbatim>\<open>===\<close>. A property that is missing
  from an object reads as \<open>JUndefined\<close>.
\<close>

datatype jsval = JUndefined | JNull | JBool bool | JNum int | JStr string

text \<open>
  The record the save handler writes:
  \<^verbatim>\<open>{ date, mood, note, timestamp, synced }\<close>. The key \<open>date\<close> is a string, \<open>mood\<close> and
  \<open>timestamp\<close> are integers. \<open>synced\<close> is kept as a JavaScript value, because
  \<^verbatim>\<open>getUnsyncedEntries\<close> tests it with \<^verbatim>\<open>=== false\<close>.
\<close>

record entry =
  date :: string
  mood :: int
  "note" :: string
  timestamp :: int
  synced :: jsval

subsection \<open>The environment of the page\<close>

text \<open>
  Every \<^verbatim>\<open>DB\<close> method wraps one IndexedDB request in a promise: \<^verbatim>\<open>onsuccess\<close> resolves it,
  \<^verbatim>\<open>onerror\<close> rejects it. Which of the two the engine fires is the field \<open>idb_ok\<close>.
  The promise awaited in the loop of \<^verbatim>\<open>syncEntries\<close> stands for the remote submission of one
  entry (in the source a 200 ms timer, which can only resolve); \<open>remote e\<close> tells whether it
  resolves (\<open>True\<close>) or rejects (\<open>False\<close>).
\<close>

datatype idb_request = ReqPut entry | ReqGet string | ReqGetAll | ReqDelete string

record env =
  idb_ok :: "idb_request \<Rightarrow> bool"
  remote :: "entry \<Rightarrow> bool"

datatype error = StorageReadFailed | StorageWriteFailed | RemoteSubmitFailed

text \<open>
  The ghost trace records, in order, every remote submission that was started and every
  \<^verbatim>\<open>DB.put\<close> that succeeded.
\<close>

datatype event = Submitted entry | Stored entry

text \<open>
  The object store \<^verbatim>\<open>entries\<close> (key path \<^verbatim>\<open>date\<close>) is the list of its records in key order,
  which is the order in which \<^verbatim>\<open>getAll\<close> returns them.
\<close>

record app =
  entries :: "entry list"
  trace :: "event list"

definition wf_store :: "entry list \<Rightarrow> bool" where
  "wf_store st = sorted_wrt (\<lambda>a b. date a < date b) st"

subsection \<open>DB module\<close>

fun store_put :: "entry \<Rightarrow> entry list \<Rightarrow> entry list" where
  "store_put e [] = [e]"
| "store_put e (x # xs) =
     (if date e = date x then e # xs
      else if date e < date x then e # x # xs
      else x # store_put e xs)"

definition store_get :: "string \<Rightarrow> entry list \<Rightarrow> entry option" where
  "store_get d st = find (\<lambda>x. date x = d) st"

definition store_delete :: "string \<Rightarrow> entry list \<Rightarrow> entry list" where
  "store_delete d st = filter (\<lambda>x. date x \<noteq> d) st"

text \<open>\<^verbatim>\<open>DB.put(entry)\<close>: the result is the rejection, if any, and the new state.\<close>

definition DB_put :: "env \<Rightarrow> entry \<Rightarrow> app \<Rightarrow> error option \<times> app" where
  "DB_put ev e w =
     (if idb_ok ev (ReqPut e)
      then (None, w\<lparr>entries := store_put e (entries w), trace := trace w @ [Stored e]\<rparr>)
      else (Some StorageWriteFailed, w))"

text \<open>\<^verbatim>\<open>DB.get(date)\<close>: \<open>Inr None\<close> is the promise resolved with \<^verbatim>\<open>undefined\<close>.\<close>

definition DB_get :: "env \<Rightarrow> string \<Rightarrow> app \<Rightarrow> error + entry option" where
  "DB_get ev d w =
     (if idb_ok ev (ReqGet d) then Inr (store_get d (entries w)) else Inl StorageReadFailed)"

definition DB_getAll :: "env \<Rightarrow> app \<Rightarrow> error + entry list" where
  "DB_getAll ev w = (if idb_ok ev ReqGetAll then Inr (entries w) else Inl StorageReadFailed)"

definition DB_delete :: "env \<Rightarrow> string \<Rightarrow> app \<Rightarrow> error option \<times> app" where
  "DB_delete ev d w =
     (if idb_ok ev (ReqDelete d)
      then (None, w\<lparr>entries := store_delete d (entries w)\<rparr>)
      else (Some StorageWriteFailed, w))"

text \<open>
  \<^verbatim>\<open>e.date.split('-').map(Number)\<close>. \<open>split_on\<close> is \<^verbatim>\<open>String.prototype.split\<close> with a
  one-character separator. \<^verbatim>\<open>Number\<close> yields a floating-point number; \<open>js_Number\<close> is
  \<^verbatim>\<open>Number\<close> on the strings of at most 15 decimal digits only (the empty string is 0), where
  the result is that integer, exactly. On every other string \<open>js_Number\<close> is \<open>None\<close>: that is
  right where \<^verbatim>\<open>Number\<close> gives \<^verbatim>\<open>NaN\<close>, and it is not the code's result for the other
  numeric forms \<^verbatim>\<open>Number\<close> reads (surrounding blanks, signs, exponents, fractions,
  hexadecimal, longer digit strings). The fields of a date of the data model,
  \<^verbatim>\<open>YYYY-MM-DD\<close>, are digit strings, and the statements about the month filter are about
  stores of such dates. A field missing from the destructuring \<^verbatim>\<open>[y, m]\<close> is \<^verbatim>\<open>undefined\<close>
  and equals no number.
\<close>

fun split_on :: "char \<Rightarrow> string \<Rightarrow> string list" where
  "split_on c [] = [[]]"
| "split_on c (x # xs) =
     (if x = c then [] # split_on c xs
      else (case split_on c xs of [] \<Rightarrow> [[x]] | p # ps \<Rightarrow> (x # p) # ps))"

definition is_digit :: "char \<Rightarrow> bool" where
  "is_digit c = (c \<in> set ''0123456789'')"

definition dec_value :: "string \<Rightarrow> int" where
  "dec_value s = foldl (\<lambda>n c. 10 * n + (of_char c - 48)) 0 s"

definition js_Number :: "string \<Rightarrow> int option" where
  "js_Number s = (if list_all is_digit s \<and> length s \<le> 15 then Some (dec_value s) else None)"

definition month_matches :: "int \<Rightarrow> int \<Rightarrow> entry \<Rightarrow> bool" where
  "month_matches year month e =
     (case map js_Number (split_on CHR ''-'' (date e)) of
        Some y # Some m # _ \<Rightarrow> y = year \<and> m = month + 1
      | _ \<Rightarrow> False)"

definition DB_getByMonth :: "env \<Rightarrow> int \<Rightarrow> int \<Rightarrow> app \<Rightarrow> error + entry list" where
  "DB_getByMonth ev year month w =
     (case DB_getAll ev w of
        Inl err \<Rightarrow> Inl err
      | Inr es \<Rightarrow> Inr (filter (month_matches year month) es))"

subsection \<open>NetworkStatus module\<close>

text \<open>
  The banner calls (\<^verbatim>\<open>showBanner\<close>, \<^verbatim>\<open>autoHide\<close>) only change the page's display and are
  left out; \<^verbatim>\<open>onOffline\<close> does nothing else.
\<close>

definition getUnsyncedEntries :: "env \<Rightarrow> app \<Rightarrow> error + entry list" where
  "getUnsyncedEntries ev w =
     (case DB_getAll ev w of
        Inl err \<Rightarrow> Inl err
      | Inr es \<Rightarrow> Inr (filter (\<lambda>e. synced e = JBool False) es))"

text \<open>
  One turn of the loop of \<^verbatim>\<open>syncEntries\<close>: await the submission, set
  \<^verbatim>\<open>entry.synced = true\<close>, await \<^verbatim>\<open>DB.put(entry)\<close>. A rejected \<^verbatim>\<open>await\<close> throws; the loop
  has no handler, so the exception leaves the loop and rejects \<^verbatim>\<open>syncEntries\<close>.
\<close>

definition sync_one :: "env \<Rightarrow> entry \<Rightarrow> app \<Rightarrow> error option \<times> app" where
  "sync_one ev e w =
     (let w1 = w\<lparr>trace := trace w @ [Submitted e]\<rparr>
      in if remote ev e then DB_put ev (e\<lparr>synced := JBool True\<rparr>) w1
         else (Some RemoteSubmitFailed, w1))"

fun syncEntries :: "env \<Rightarrow> entry list \<Rightarrow> app \<Rightarrow> error option \<times> app" where
  "syncEntries ev [] w = (None, w)"
| "syncEntries ev (e # es) w =
     (case sync_one ev e w of
        (Some err, w') \<Rightarrow> (Some err, w')
      | (None, w') \<Rightarrow> syncEntries ev es w')"

definition onOnline :: "env \<Rightarrow> app \<Rightarrow> error option \<times> app" where
  "onOnline ev w =
     (case getUnsyncedEntries ev w of
        Inl err \<Rightarrow> (Some err, w)
      | Inr unsynced \<Rightarrow>
          if length unsynced > 0 then syncEntries ev unsynced w else (None, w))"

definition onOffline :: "app \<Rightarrow> app" where
  "onOffline w = w"

subsection \<open>The save handler\<close>

text \<open>
  The click handler of \<^verbatim>\<open>#save-entry\<close>. Its inputs are \<^verbatim>\<open>navigator.onLine\<close>,
  \<^verbatim>\<open>dateInput.value\<close>, \<^verbatim>\<open>selectedMood\<close> (\<open>None\<close> is \<^verbatim>\<open>null\<close>), the value of
  \<^verbatim>\<open>noteInput.value.trim()\<close> and \<^verbatim>\<open>Date.now()\<close>. A falsy \<^verbatim>\<open>selectedMood\<close> (\<^verbatim>\<open>null\<close> or 0)
  returns at once.
\<close>

definition saveEntry ::
  "env \<Rightarrow> bool \<Rightarrow> string \<Rightarrow> int option \<Rightarrow> string \<Rightarrow> int \<Rightarrow> app \<Rightarrow> error option \<times> app" where
  "saveEntry ev isOnline dateValue selectedMood noteValue now w =
     (case selectedMood of
        None \<Rightarrow> (None, w)
      | Some m \<Rightarrow>
          if m = 0 then (None, w)
          else DB_put ev \<lparr>date = dateValue, mood = m, note = noteValue,
                          timestamp = now, synced = JBool isOnline\<rparr> w)"

subsection \<open>The page's event loop\<close>

text \<open>
  \<^verbatim>\<open>onOnline\<close> is an \<^verbatim>\<open>async\<close> method: each \<^verbatim>\<open>await\<close> hands control back to the event loop,
  and other events run before the method resumes. A call in flight is a task, and its state
  says which promise it awaits:
  \<^item> \<open>Reading r\<close>: the promise of \<^verbatim>\<open>getUnsyncedEntries\<close>, which will settle with \<open>r\<close>;
  \<^item> \<open>Submitting (e # es)\<close>: the submission of \<open>e\<close> (the timer of line 180), started when
    the loop turn began; \<open>es\<close> is the rest of the queue;
  \<^item> \<open>Storing r es\<close>: the promise of \<^verbatim>\<open>DB.put\<close>, which will settle with \<open>r\<close>;
  \<^item> \<open>Finished\<close>: the call has returned or thrown.

  A sync pass is a call inside the loop of \<^verbatim>\<open>syncEntries\<close>. IndexedDB runs the transactions
  on one object store in the order of their creation, and each \<^verbatim>\<open>DB\<close> method creates its
  transaction when it is called: so a request reads or writes the store at the moment of
  the call, and only its callback comes later. The event \<open>Advance i\<close> settles the promise
  task \<open>i\<close> awaits and runs the task up to its next \<^verbatim>\<open>await\<close>; \<open>Online\<close> and \<open>Offline\<close> are the
  window's connectivity events. \<^verbatim>\<open>onOnline\<close> tests no flag and keeps no record of a call in
  flight: the listener starts a new call on every \<open>Online\<close> event, and the call issues its
  \<^verbatim>\<open>getAll\<close> at once.
\<close>

datatype task =
  Reading "error + entry list"
  | Submitting "entry list"
  | Storing "error option" "entry list"
  | Finished

datatype loop_event = Online | Offline | Advance nat

record page =
  world :: app
  tasks :: "task list"

text \<open>
  The head of the \<^verbatim>\<open>for\<close> loop: with no entry left \<^verbatim>\<open>syncEntries\<close> and \<^verbatim>\<open>onOnline\<close> return;
  otherwise the submission of the next entry starts and the call awaits it.
\<close>

fun begin_turn :: "entry list \<Rightarrow> app \<Rightarrow> task \<times> app" where
  "begin_turn [] w = (Finished, w)"
| "begin_turn (e # es) w = (Submitting (e # es), w\<lparr>trace := trace w @ [Submitted e]\<rparr>)"

fun resume :: "env \<Rightarrow> task \<Rightarrow> app \<Rightarrow> task \<times> app" where
  "resume ev (Reading r) w =
     (case r of
        Inl err \<Rightarrow> (Finished, w)
      | Inr unsynced \<Rightarrow>
          if length unsynced > 0 then begin_turn unsynced w else (Finished, w))"
| "resume ev (Submitting []) w = (Finished, w)"
| "resume ev (Submitting (e # es)) w =
     (if remote ev e
      then (case DB_put ev (e\<lparr>synced := JBool True\<rparr>) w of (r, w') \<Rightarrow> (Storing r es, w'))
      else (Finished, w))"
| "resume ev (Storing r es) w =
     (case r of
        Some err \<Rightarrow> (Finished, w)
      | None \<Rightarrow> begin_turn es w)"
| "resume ev Finished w = (Finished, w)"

definition step :: "env \<Rightarrow> loop_event \<Rightarrow> page \<Rightarrow> page" where
  "step ev x p =
     (case x of
        Online \<Rightarrow> p\<lparr>tasks := tasks p @ [Reading (getUnsyncedEntries ev (world p))]\<rparr>
      | Offline \<Rightarrow> p\<lparr>world := onOffline (world p)\<rparr>
      | Advance i \<Rightarrow>
          if i < length (tasks p) then
            (case resume ev (tasks p ! i) (world p) of
               (t, w') \<Rightarrow> \<lparr>world = w', tasks = (tasks p)[i := t]\<rparr>)
          else p)"

definition run :: "env \<Rightarrow> loop_event list \<Rightarrow> page \<Rightarrow> page" where
  "run ev xs p = foldl (\<lambda>q x. step ev x q) p xs"

fun is_pass :: "task \<Rightarrow> bool" where
  "is_pass (Reading r) = False"
| "is_pass (Submitting q) = True"
| "is_pass (Storing r q) = True"
| "is_pass Finished = False"

definition passes_in_flight :: "page \<Rightarrow> nat" where
  "passes_in_flight p = length (filter is_pass (tasks p))"

subsection \<open>Service worker: requests, responses and the Cache API\<close>

text \<open>
  The part of a request and of a response that \<^verbatim>\<open>sw.js\<close> reads: \<^verbatim>\<open>request.mode\<close>,
  \<^verbatim>\<open>response.status\<close>, \<^verbatim>\<open>response.type\<close>. A URL is a string in resolved form, so that
  \<^verbatim>\<open>'./index.html'\<close> names the same document in the asset list, in \<^verbatim>\<open>caches.match\<close> and in a
  request. Requests are GET requests over http(s), the ones the Cache API stores.
\<close>

datatype request_mode = Navigate | SameOrigin | NoCors | Cors

record request =
  url :: string
  mode :: request_mode

datatype response_type = Basic | CorsType | DefaultType | ErrorType | Opaque | OpaqueRedirect

record response =
  status :: nat
  rtype :: response_type
  body :: string

text \<open>The network: \<open>None\<close> is a \<^verbatim>\<open>fetch\<close> that rejects.\<close>

type_synonym network = "request \<Rightarrow> response option"

text \<open>
  A cache maps request URLs to responses; the cache storage lists the named caches in the
  order of their creation, which is the order in which \<^verbatim>\<open>caches.match\<close> searches them.
\<close>

type_synonym cache = "(string \<times> response) list"

type_synonym cache_storage = "(string \<times> cache) list"

definition CACHE_NAME :: string where
  "CACHE_NAME = ''mood-journal-v2''"

definition ASSETS :: "string list" where
  "ASSETS = [''./'', ''./index.html'', ''./style.css'', ''./app.js'', ''./manifest.json'',
             ''./icons/icon-192.svg'', ''./icons/icon-512.svg'', ''./icons/splash.svg'',
             ''./icons/screenshots/mobile.svg'', ''./icons/screenshots/desktop.svg'']"

definition cache_match :: "string \<Rightarrow> cache \<Rightarrow> response option" where
  "cache_match u c = map_of c u"

text \<open>\<^verbatim>\<open>cache.put\<close> removes the entry of the same request, if any, and adds the new one.\<close>

definition cache_put :: "string \<Rightarrow> response \<Rightarrow> cache \<Rightarrow> cache" where
  "cache_put u r c = filter (\<lambda>p. fst p \<noteq> u) c @ [(u, r)]"

fun caches_match :: "string \<Rightarrow> cache_storage \<Rightarrow> response option" where
  "caches_match u [] = None"
| "caches_match u ((n, c) # cs) =
     (case cache_match u c of Some r \<Rightarrow> Some r | None \<Rightarrow> caches_match u cs)"

text \<open>\<^verbatim>\<open>caches.open(name)\<close> creates the cache when there is none of that name.\<close>

definition caches_open :: "string \<Rightarrow> cache_storage \<Rightarrow> cache_storage" where
  "caches_open n cs = (if map_of cs n = None then cs @ [(n, [])] else cs)"

definition with_cache :: "string \<Rightarrow> (cache \<Rightarrow> cache) \<Rightarrow> cache_storage \<Rightarrow> cache_storage" where
  "with_cache n f cs = map (\<lambda>p. if fst p = n then (fst p, f (snd p)) else p) cs"

subsection \<open>Service worker: the listeners of sw.js\<close>

text \<open>
  The state the listeners act on: the cache storage, the worker's skip-waiting flag (set
  by \<^verbatim>\<open>self.skipWaiting()\<close>), and a ghost list of the requests sent to the network.
  \<^verbatim>\<open>clients.claim()\<close> and the notification listener do not touch this state and are left
  out.
\<close>

record sw =
  caches :: cache_storage
  skip_waiting :: bool
  fetched :: "request list"

datatype sw_error = PrecacheIncomplete

text \<open>
  \<^verbatim>\<open>caches.open(CACHE_NAME).then(cache => cache.put(event.request, clone))\<close>.
  \<^verbatim>\<open>caches.open\<close> creates the cache when it is missing. The Cache API does not store a response
  with status 206: \<^verbatim>\<open>cache.put\<close> rejects then and writes nothing. The listener does not await
  this promise and attaches no handler to it, so the rejection has no other effect. The
  write is applied here at once; in the browser it completes after the listener has handed
  over its response. The other refusals of \<^verbatim>\<open>cache.put\<close> (a request that is not GET, a
  response with \<^verbatim>\<open>Vary: *\<close>) concern parts of a request and of a response that this model does
  not have.
\<close>

definition put_runtime :: "request \<Rightarrow> response \<Rightarrow> sw \<Rightarrow> sw" where
  "put_runtime req r s =
     (if status r = 206
      then s\<lparr>caches := caches_open CACHE_NAME (caches s)\<rparr>
      else s\<lparr>caches := with_cache CACHE_NAME (cache_put (url req) r)
                          (caches_open CACHE_NAME (caches s))\<rparr>)"

text \<open>
  \<^verbatim>\<open>cache.addAll(ASSETS)\<close> fetches every URL and rejects, storing nothing, when a fetch
  rejects or a response is not an ok response (status 200 to 299, and not 206).
\<close>

definition asset_request :: "string \<Rightarrow> request" where
  "asset_request u = \<lparr>url = u, mode = Cors\<rparr>"

definition addable :: "response \<Rightarrow> bool" where
  "addable r = (200 \<le> status r \<and> status r \<le> 299 \<and> status r \<noteq> 206 \<and> rtype r \<noteq> ErrorType)"

fun fetch_all :: "network \<Rightarrow> string list \<Rightarrow> (string \<times> response) list option" where
  "fetch_all net [] = Some []"
| "fetch_all net (u # us) =
     (case net (asset_request u) of
        None \<Rightarrow> None
      | Some r \<Rightarrow>
          if addable r
          then (case fetch_all net us of None \<Rightarrow> None | Some rs \<Rightarrow> Some ((u, r) # rs))
          else None)"

definition put_all :: "(string \<times> response) list \<Rightarrow> cache \<Rightarrow> cache" where
  "put_all rs c = foldl (\<lambda>c p. cache_put (fst p) (snd p) c) c rs"

text \<open>
  The install listener: \<^verbatim>\<open>caches.open(CACHE_NAME)\<close>, then \<^verbatim>\<open>cache.addAll(ASSETS)\<close>, then
  \<^verbatim>\<open>self.skipWaiting()\<close>. The result is the rejection of the promise passed to
  \<^verbatim>\<open>waitUntil\<close>, if any.
\<close>

definition install_listener :: "network \<Rightarrow> sw \<Rightarrow> sw_error option \<times> sw" where
  "install_listener net s =
     (let s1 = s\<lparr>caches := caches_open CACHE_NAME (caches s),
                  fetched := fetched s @ map asset_request ASSETS\<rparr>
      in case fetch_all net ASSETS of
           None \<Rightarrow> (Some PrecacheIncomplete, s1)
         | Some rs \<Rightarrow>
             (None, s1\<lparr>caches := with_cache CACHE_NAME (put_all rs) (caches s1),
                       skip_waiting := True\<rparr>))"

text \<open>The activate listener deletes every cache whose name is not \<^verbatim>\<open>CACHE_NAME\<close>.\<close>

definition activate_listener :: "sw \<Rightarrow> sw" where
  "activate_listener s = s\<lparr>caches := filter (\<lambda>p. fst p = CACHE_NAME) (caches s)\<rparr>"

text \<open>
  The fetch listener. The result is what the page receives: \<open>None\<close> is a network error
  (the promise given to \<^verbatim>\<open>respondWith\<close> rejected, or resolved with \<^verbatim>\<open>undefined\<close>).
\<close>

definition fetch_listener :: "network \<Rightarrow> request \<Rightarrow> sw \<Rightarrow> response option \<times> sw" where
  "fetch_listener net req s =
     (if mode req = Navigate then
        (let s1 = s\<lparr>fetched := fetched s @ [req]\<rparr>
         in case net req of
              Some r \<Rightarrow> (Some r, put_runtime req r s1)
            | None \<Rightarrow> (caches_match ''./index.html'' (caches s1), s1))
      else
        (case caches_match (url req) (caches s) of
           Some cached \<Rightarrow> (Some cached, s)
         | None \<Rightarrow>
             (let s1 = s\<lparr>fetched := fetched s @ [req]\<rparr>
              in case net req of
                   None \<Rightarrow> (None, s1)
                 | Some r \<Rightarrow>
                     (Some r, if status r = 200 \<and> rtype r = Basic
                              then put_runtime req r s1 else s1))))"

definition message_listener :: "jsval \<Rightarrow> sw \<Rightarrow> sw" where
  "message_listener d s = (if d = JStr ''skipWaiting'' then s\<lparr>skip_waiting := True\<rparr> else s)"

subsection \<open>Service worker: the lifecycle the browser runs\<close>

text \<open>
  The browser's part, after the Service Workers standard. A generation (the worker running
  \<^verbatim>\<open>sw.js\<close>) is installing, waiting, active or redundant; \<open>older_active\<close> says that an older
  generation is active and controls open pages. The browser activates a waiting worker when
  its skip-waiting flag is set or when no older generation controls a page; it runs the
  activate listener then. An install whose \<^verbatim>\<open>waitUntil\<close> promise rejects makes the worker
  redundant. Fetch events go to the active worker only.
\<close>

datatype phase = Installing | Waiting | Active | Redundant

record registration =
  worker :: sw
  phase :: phase
  older_active :: bool

definition try_activate :: "registration \<Rightarrow> registration" where
  "try_activate r =
     (if phase r = Waiting \<and> (skip_waiting (worker r) \<or> \<not> older_active r)
      then r\<lparr>worker := activate_listener (worker r), phase := Active, older_active := False\<rparr>
      else r)"

definition install_event :: "network \<Rightarrow> registration \<Rightarrow> registration" where
  "install_event net r =
     (if phase r = Installing then
        (case install_listener net (worker r) of
           (Some err, s) \<Rightarrow> r\<lparr>worker := s, phase := Redundant\<rparr>
         | (None, s) \<Rightarrow> try_activate (r\<lparr>worker := s, phase := Waiting\<rparr>))
      else r)"

definition message_event :: "jsval \<Rightarrow> registration \<Rightarrow> registration" where
  "message_event d r =
     (if phase r = Redundant then r
      else try_activate (r\<lparr>worker := message_listener d (worker r)\<rparr>))"

definition fetch_event :: "network \<Rightarrow> request \<Rightarrow> registration \<Rightarrow> registration" where
  "fetch_event net req r =
     (if phase r = Active then r\<lparr>worker := snd (fetch_listener net req (worker r))\<rparr> else r)"

definition pages_closed :: "registration \<Rightarrow> registration" where
  "pages_closed r = try_activate (r\<lparr>older_active := False\<rparr>)"

datatype sw_event =
  InstallEvent network
  | MessageEvent jsval
  | FetchEvent network request
  | PagesClosed

fun dispatch :: "sw_event \<Rightarrow> registration \<Rightarrow> registration" where
  "dispatch (InstallEvent net) r = install_event net r"
| "dispatch (MessageEvent d) r = message_event d r"
| "dispatch (FetchEvent net req) r = fetch_event net req r"
| "dispatch PagesClosed r = pages_closed r"

definition run_sw :: "sw_event list \<Rightarrow> registration \<Rightarrow> registration" where
  "run_sw xs r = foldl (\<lambda>q x. dispatch x q) r xs"

subsection \<open>Vocabulary of the statements\<close>

text \<open>What a completed pass does to one record: only the flag \<^verbatim>\<open>false\<close> is turned.\<close>

definition mark_synced :: "entry \<Rightarrow> entry" where
  "mark_synced e = (if synced e = JBool False then e\<lparr>synced := JBool True\<rparr> else e)"

text \<open>
  The trace of a pass in which every step succeeds: each entry is submitted and then
  stored with its flag set, before the next entry is submitted.
\<close>

definition pass_trace :: "entry list \<Rightarrow> event list" where
  "pass_trace q = concat (map (\<lambda>e. [Submitted e, Stored (e\<lparr>synced := JBool True\<rparr>)]) q)"

text \<open>
  The year and the month of a date as the data model writes it, \<^verbatim>\<open>YYYY-MM-DD\<close>: the number
  written by the first four characters and the number written by the sixth and seventh.
  \<open>spec_getByMonth\<close> is the month filter in the words of the specification.
\<close>

definition iso_date :: "string \<Rightarrow> bool" where
  "iso_date d = (length d = 10 \<and> d ! 4 = CHR ''-'' \<and> d ! 7 = CHR ''-''
      \<and> list_all is_digit (take 4 d) \<and> list_all is_digit (take 2 (drop 5 d))
      \<and> list_all is_digit (drop 8 d))"

definition spec_year :: "string \<Rightarrow> int" where
  "spec_year d = dec_value (take 4 d)"

definition spec_month :: "string \<Rightarrow> int" where
  "spec_month d = dec_value (take 2 (drop 5 d))"

definition spec_getByMonth :: "int \<Rightarrow> int \<Rightarrow> entry list \<Rightarrow> entry list" where
  "spec_getByMonth y m es = filter (\<lambda>e. spec_year (date e) = y \<and> spec_month (date e) = m) es"

text \<open>
  What the cache of a given name holds for a URL, and: the app-shell document is in the
  cache of the current generation.
\<close>

definition cached_in :: "string \<Rightarrow> string \<Rightarrow> cache_storage \<Rightarrow> response option" where
  "cached_in n u cs = (case map_of cs n of None \<Rightarrow> None | Some c \<Rightarrow> cache_match u c)"

definition shell_cached :: "cache_storage \<Rightarrow> bool" where
  "shell_cached cs = (cached_in CACHE_NAME ''./index.html'' cs \<noteq> None)"

subsection \<open>Examples\<close>

definition env_ok :: env where
  "env_ok = \<lparr>idb_ok = (\<lambda>r. True), remote = (\<lambda>e. True)\<rparr>"

definition entry_may1 :: entry where
  "entry_may1 = \<lparr>date = ''2024-05-01'', mood = 4, note = ''ok'',
                  timestamp = 1714550400000, synced = JBool False\<rparr>"

definition entry_may15 :: entry where
  "entry_may15 = \<lparr>date = ''2024-05-15'', mood = 2, note = '''',
                   timestamp = 1715760000000, synced = JBool False\<rparr>"

definition app_empty :: app where
  "app_empty = \<lparr>entries = [], trace = []\<rparr>"

definition app_two :: app where
  "app_two = \<lparr>entries = [entry_may1, entry_may15], trace = []\<rparr>"

definition app_one :: app where
  "app_one = \<lparr>entries = [entry_may1], trace = []\<rparr>"

definition page_one :: page where
  "page_one = \<lparr>world = app_one, tasks = []\<rparr>"

text \<open>The page while the pass of a first call awaits the submission of its only entry.\<close>

definition page_in_flight :: page where
  "page_in_flight = \<lparr>world = \<lparr>entries = [entry_may1], trace = [Submitted entry_may1]\<rparr>,
                      tasks = [Submitting [entry_may1]]\<rparr>"

text \<open>A store with a record that has no \<^verbatim>\<open>synced\<close> property and one already synced.\<close>

definition entry_legacy :: entry where
  "entry_legacy = \<lparr>date = ''2024-04-30'', mood = 3, note = ''old'',
                    timestamp = 1714464000000, synced = JUndefined\<rparr>"

definition app_mixed :: app where
  "app_mixed = \<lparr>entries = [entry_legacy, entry_may1, entry_may15\<lparr>synced := JBool True\<rparr>],
                 trace = []\<rparr>"

text \<open>
  A network that answers every request with a same-origin 200 response, and one that is
  unreachable; a registration in which an older generation is active while the new one
  installs.
\<close>

definition page_200 :: response where
  "page_200 = \<lparr>status = 200, rtype = Basic, body = ''<html>''\<rparr>"

definition net_ok :: network where
  "net_ok req = Some page_200"

definition net_down :: network where
  "net_down req = None"

definition sw_fresh :: sw where
  "sw_fresh = \<lparr>caches = [(''mood-journal-v1'', [(''./index.html'', page_200)])],
               skip_waiting = False, fetched = []\<rparr>"

definition reg_update :: registration where
  "reg_update = \<lparr>worker = sw_fresh, phase = Installing, older_active = True\<rparr>"

definition reg_waiting :: registration where
  "reg_waiting = \<lparr>worker = sw_fresh, phase = Waiting, older_active = True\<rparr>"

definition nav_history :: request where
  "nav_history = \<lparr>url = ''./?tab=history'', mode = Navigate\<rparr>"

definition get_data :: request where
  "get_data = \<lparr>url = ''./data.json'', mode = Cors\<rparr>"

definition sw_empty :: sw where
  "sw_empty = \<lparr>caches = [], skip_waiting = False, fetched = []\<rparr>"

definition page_404 :: response where
  "page_404 = \<lparr>status = 404, rtype = Basic, body = ''not found''\<rparr>"

definition net_404 :: network where
  "net_404 req = Some page_404"

section \<open>Local store\<close>

text \<open>
  The stores the code can build, from the empty store by \<^verbatim>\<open>put\<close> and \<^verbatim>\<open>delete\<close>, are in key
  order with one record for each date.
\<close>

lemma wf_store_empty: "wf_store []"
  by (simp add: wf_store_def)

lemma wf_store_delete: "wf_store st \<Longrightarrow> wf_store (store_delete d st)"
  by (simp add: wf_store_def store_delete_def sorted_wrt_filter)

lemma store_get_put_same: "store_get (date e) (store_put e st) = Some e"
  by (induction st) (simp_all add: store_get_def)

lemma store_put_keys: "date ` set (store_put e st) = insert (date e) (date ` set st)"
  by (induction st) auto

lemma wf_store_put: "wf_store st \<Longrightarrow> wf_store (store_put e st)"
proof (induction st)
  case Nil
  then show ?case by (simp add: wf_store_def)
next
  case (Cons x xs)
  have tail: "wf_store xs" using Cons.prems by (simp add: wf_store_def)
  have above: "\<forall>y\<in>set xs. date x < date y" using Cons.prems by (simp add: wf_store_def)
  show ?case
  proof (cases "date e = date x")
    case True
    then show ?thesis using Cons.prems by (simp add: wf_store_def)
  next
    case False
    show ?thesis
    proof (cases "date e < date x")
      case True
      then show ?thesis using Cons.prems False by (auto simp: wf_store_def)
    next
      case ge: False
      have lt: "date x < date e" using False ge by auto
      have "\<forall>y\<in>set (store_put e xs). date x < date y"
      proof
        fix y assume "y \<in> set (store_put e xs)"
        then have "date y \<in> insert (date e) (date ` set xs)"
          using store_put_keys [of e xs] by blast
        then show "date x < date y" using lt above by auto
      qed
      then show ?thesis using False ge Cons.IH [OF tail] by (simp add: wf_store_def)
    qed
  qed
qed

lemma store_put_single:
  "wf_store st \<Longrightarrow> filter (\<lambda>x. date x = date e) (store_put e st) = [e]"
proof (induction st)
  case Nil
  then show ?case by simp
next
  case (Cons x xs)
  have tail: "wf_store xs" using Cons.prems by (simp add: wf_store_def)
  have above: "\<forall>y\<in>set xs. date x < date y" using Cons.prems by (simp add: wf_store_def)
  show ?case
  proof (cases "date e = date x")
    case True
    then have "\<forall>y\<in>set xs. date y \<noteq> date e" using above by auto
    then have "filter (\<lambda>y. date y = date e) xs = []" by (simp add: filter_empty_conv)
    then show ?thesis using True by simp
  next
    case False
    show ?thesis
    proof (cases "date e < date x")
      case True
      then have "\<forall>y\<in>set xs. date y \<noteq> date e" using above by fastforce
      then have "filter (\<lambda>y. date y = date e) xs = []" by (simp add: filter_empty_conv)
      then show ?thesis using True False by auto
    next
      case ge: False
      then show ?thesis using False Cons.IH [OF tail] by auto
    qed
  qed
qed

text \<open>
  C6. Round trip: when the engine completes both requests, \<^verbatim>\<open>DB.put(e)\<close> followed by
  \<^verbatim>\<open>DB.get(e.date)\<close> resolves with a record equal to \<open>e\<close> in all five fields, whatever the
  store held before; in a store in key order the record \<open>e\<close> is then the only one with its
  date, so a record that had the same date has been replaced.
\<close>

theorem put_get_round_trip:
  assumes "idb_ok ev (ReqPut e)" and "idb_ok ev (ReqGet (date e))"
  shows "\<exists>w'. DB_put ev e w = (None, w')
            \<and> DB_get ev (date e) w' = Inr (Some e)
            \<and> (wf_store (entries w) \<longrightarrow>
                 wf_store (entries w') \<and> filter (\<lambda>x. date x = date e) (entries w') = [e])"
  using assms
  by (simp add: DB_put_def DB_get_def store_get_put_same wf_store_put store_put_single)

theorem put_get_round_trip_witness:
  "DB_put env_ok (entry_may1\<lparr>mood := 5\<rparr>) app_two
     = (None, \<lparr>entries = [entry_may1\<lparr>mood := 5\<rparr>, entry_may15],
               trace = [Stored (entry_may1\<lparr>mood := 5\<rparr>)]\<rparr>)
   \<and> DB_get env_ok ''2024-05-01''
       \<lparr>entries = [entry_may1\<lparr>mood := 5\<rparr>, entry_may15],
        trace = [Stored (entry_may1\<lparr>mood := 5\<rparr>)]\<rparr>
     = Inr (Some (entry_may1\<lparr>mood := 5\<rparr>))"
  using put_get_round_trip [of env_ok "entry_may1\<lparr>mood := 5\<rparr>" app_two]
  by (simp add: env_ok_def DB_put_def DB_get_def store_get_def app_two_def
      entry_may1_def entry_may15_def)

subsection \<open>Month filter\<close>

lemma is_digit_not_dash: "is_digit c \<Longrightarrow> c \<noteq> CHR ''-''"
  by (auto simp: is_digit_def)

lemma split_on_digits: "list_all is_digit s \<Longrightarrow> split_on CHR ''-'' (s @ CHR ''-'' # t) = s # split_on CHR ''-'' t"
  by (induction s) (auto simp: is_digit_not_dash)

lemma split_on_digits_end: "list_all is_digit s \<Longrightarrow> split_on CHR ''-'' s = [s]"
  by (induction s) (auto simp: is_digit_not_dash)

lemma iso_date_parts:
  assumes "iso_date d"
  shows "d = take 4 d @ CHR ''-'' # take 2 (drop 5 d) @ CHR ''-'' # drop 8 d"
proof -
  have len: "length d = 10" and d4: "d ! 4 = CHR ''-''" and d7: "d ! 7 = CHR ''-''"
    using assms by (simp_all add: iso_date_def)
  have a: "d = take 4 d @ d ! 4 # drop 5 d" using len id_take_nth_drop [of 4 d] by simp
  have b: "drop 5 d = take 2 (drop 5 d) @ (drop 5 d) ! 2 # drop 3 (drop 5 d)"
    using len id_take_nth_drop [of 2 "drop 5 d"] by simp
  have c: "(drop 5 d) ! 2 = d ! 7" using len by simp
  have e: "drop 3 (drop 5 d) = drop 8 d" by simp
  show ?thesis using a b c e d4 d7 by metis
qed

lemma iso_date_fields:
  assumes "iso_date d"
  shows "split_on CHR ''-'' d = [take 4 d, take 2 (drop 5 d), drop 8 d]"
proof -
  have dg: "list_all is_digit (take 4 d)" "list_all is_digit (take 2 (drop 5 d))"
      "list_all is_digit (drop 8 d)"
    using assms by (simp_all add: iso_date_def)
  have "split_on CHR ''-'' d
      = split_on CHR ''-'' (take 4 d @ CHR ''-'' # take 2 (drop 5 d) @ CHR ''-'' # drop 8 d)"
    using iso_date_parts [OF assms] by simp
  also have "\<dots> = [take 4 d, take 2 (drop 5 d), drop 8 d]"
    using dg by (simp add: split_on_digits split_on_digits_end)
  finally show ?thesis .
qed

lemma month_matches_iso:
  assumes "iso_date (date e)"
  shows "month_matches y m e = (spec_year (date e) = y \<and> spec_month (date e) = m + 1)"
proof -
  have dg: "list_all is_digit (take 4 (date e))" "list_all is_digit (take 2 (drop 5 (date e)))"
      "list_all is_digit (drop 8 (date e))"
    using assms by (simp_all add: iso_date_def)
  have n1: "js_Number (take 4 (date e)) = Some (spec_year (date e))"
    using dg by (simp add: js_Number_def spec_year_def)
  have n2: "js_Number (take 2 (drop 5 (date e))) = Some (spec_month (date e))"
    using dg by (simp add: js_Number_def spec_month_def)
  show ?thesis
    unfolding month_matches_def iso_date_fields [OF assms]
    by (simp add: n1 n2)
qed

text \<open>
  C7 (as amended). Month filter. The month argument is a zero-based month index, as
  \<^verbatim>\<open>Date.getMonth\<close> returns it: for stored records with dates of the form \<^verbatim>\<open>YYYY-MM-DD\<close>,
  \<^verbatim>\<open>getByMonth(y, m)\<close> resolves with exactly the records whose date has year \<open>y\<close> and month
  number \<open>m + 1\<close>, in store order: every such record and no other.
\<close>

theorem getByMonth_zero_based:
  assumes "\<forall>e\<in>set (entries w). iso_date (date e)" and "idb_ok ev ReqGetAll"
  shows "DB_getByMonth ev y m w = Inr (spec_getByMonth y (m + 1) (entries w))"
proof -
  have "filter (month_matches y m) (entries w) = spec_getByMonth y (m + 1) (entries w)"
    unfolding spec_getByMonth_def
    by (rule filter_cong [OF refl]) (use assms(1) in \<open>simp add: month_matches_iso\<close>)
  then show ?thesis using assms(2) by (simp add: DB_getByMonth_def DB_getAll_def)
qed

theorem getByMonth_zero_based_witness:
  "DB_getByMonth env_ok 2024 4 app_two = Inr [entry_may1, entry_may15]"
  using getByMonth_zero_based [of app_two env_ok 2024 4]
  by (simp add: iso_date_def is_digit_def
      dec_value_def spec_getByMonth_def spec_year_def spec_month_def
      env_ok_def app_two_def entry_may1_def entry_may15_def)

text \<open>
  The claim as stated fails: with two records dated May 2024 in the store,
  \<^verbatim>\<open>getByMonth(2024, 5)\<close> resolves with no record, while the records whose date falls in year
  2024 and month 5 are both of them.
\<close>

theorem getByMonth_counterexample:
  "DB_getByMonth env_ok 2024 5 app_two = Inr []
   \<and> spec_getByMonth 2024 5 (entries app_two) = [entry_may1, entry_may15]"
  by (simp add: DB_getByMonth_def DB_getAll_def month_matches_def js_Number_def is_digit_def
      dec_value_def spec_getByMonth_def spec_year_def spec_month_def
      env_ok_def app_two_def entry_may1_def entry_may15_def)

section \<open>Sync coordinator\<close>

lemma wf_store_distinct_keys: "wf_store st \<Longrightarrow> x \<in> set st \<Longrightarrow> y \<in> set st \<Longrightarrow> date x = date y \<Longrightarrow> x = y"
proof (induction st)
  case Nil
  then show ?case by simp
next
  case (Cons a st)
  have tail: "wf_store st" using Cons.prems(1) by (simp add: wf_store_def)
  have above: "\<forall>z\<in>set st. date a < date z" using Cons.prems(1) by (simp add: wf_store_def)
  show ?case
  proof (cases "x = a")
    case True
    then show ?thesis using Cons.prems above by auto
  next
    case xa: False
    show ?thesis
    proof (cases "y = a")
      case True
      then show ?thesis using Cons.prems above xa by auto
    next
      case False
      then show ?thesis using Cons.IH [OF tail] Cons.prems xa by simp
    qed
  qed
qed

lemma store_put_replace:
  "wf_store st \<Longrightarrow> date e \<in> date ` set st \<Longrightarrow>
   store_put e st = map (\<lambda>x. if date x = date e then e else x) st"
proof (induction st)
  case Nil
  then show ?case by simp
next
  case (Cons a st)
  have tail: "wf_store st" using Cons.prems(1) by (simp add: wf_store_def)
  have above: "\<forall>z\<in>set st. date a < date z" using Cons.prems(1) by (simp add: wf_store_def)
  show ?case
  proof (cases "date e = date a")
    case True
    then have "\<forall>z\<in>set st. date z \<noteq> date e" using above by auto
    then have "map (\<lambda>x. if date x = date e then e else x) st = st"
      by (simp add: map_idI)
    then show ?thesis using True by simp
  next
    case False
    then have mem: "date e \<in> date ` set st" using Cons.prems(2) by auto
    then have "date a < date e" using above by auto
    then have "\<not> date e < date a" by auto
    then show ?thesis using False Cons.IH [OF tail mem] by simp
  qed
qed

lemma wf_store_map: "(\<And>x. date (f x) = date x) \<Longrightarrow> wf_store st \<Longrightarrow> wf_store (map f st)"
  by (simp add: wf_store_def sorted_wrt_map)

lemma wf_store_filter_distinct: "wf_store st \<Longrightarrow> distinct (map date (filter P st))"
proof -
  assume "wf_store st"
  then have "distinct (map date st)"
    unfolding wf_store_def
    by (induction st) auto
  then show ?thesis by (simp add: distinct_map_filter)
qed

lemma syncEntries_all_ok:
  "wf_store (entries w) \<Longrightarrow> set q \<subseteq> set (entries w) \<Longrightarrow> distinct (map date q) \<Longrightarrow>
   \<forall>e\<in>set q. remote ev e \<Longrightarrow>
   \<forall>e\<in>set q. idb_ok ev (ReqPut (e\<lparr>synced := JBool True\<rparr>)) \<Longrightarrow>
   syncEntries ev q w =
     (None, \<lparr>entries = map (\<lambda>x. if x \<in> set q then x\<lparr>synced := JBool True\<rparr> else x) (entries w),
             trace = trace w @ pass_trace q\<rparr>)"
proof (induction q arbitrary: w)
  case Nil
  then show ?case by (simp add: pass_trace_def)
next
  case (Cons e es)
  let ?e' = "e\<lparr>synced := JBool True\<rparr>"
  let ?st = "entries w"
  let ?f = "\<lambda>x. if date x = date e then ?e' else x"
  let ?w1 = "\<lparr>entries = map ?f ?st, trace = trace w @ [Submitted e, Stored ?e']\<rparr>"
  have e_in: "e \<in> set ?st" using Cons.prems(2) by simp
  have key_in: "date ?e' \<in> date ` set ?st" using e_in by force
  have put: "store_put ?e' ?st = map ?f ?st"
    using store_put_replace [OF Cons.prems(1) key_in] by simp
  have rem: "remote ev e" using Cons.prems(4) by simp
  have ok: "idb_ok ev (ReqPut ?e')" using Cons.prems(5) by simp
  have one: "sync_one ev e w = (None, ?w1)"
    using rem ok put by (simp add: sync_one_def DB_put_def)
  have wf1: "wf_store (entries ?w1)"
    using Cons.prems(1) by (simp add: wf_store_map)
  have ne: "date e \<notin> date ` set es" using Cons.prems(3) by simp
  have other: "date y \<noteq> date e" if "y \<in> set es" for y
  proof
    assume "date y = date e"
    moreover have "date y \<in> date ` set es" using that by (rule imageI)
    ultimately show False using ne by simp
  qed
  have sub1: "set es \<subseteq> set (entries ?w1)"
  proof
    fix y assume y: "y \<in> set es"
    then have yin: "y \<in> set ?st" using Cons.prems(2) by auto
    have fy: "?f y = y" using other [OF y] by simp
    have "?f y \<in> ?f ` set ?st" using yin by (rule imageI)
    then have "y \<in> ?f ` set ?st" by (simp only: fy)
    then show "y \<in> set (entries ?w1)" by simp
  qed
  have dist1: "distinct (map date es)" using Cons.prems(3) by simp
  have rem1: "\<forall>x\<in>set es. remote ev x" using Cons.prems(4) by simp
  have ok1: "\<forall>x\<in>set es. idb_ok ev (ReqPut (x\<lparr>synced := JBool True\<rparr>))" using Cons.prems(5) by simp
  note IH = Cons.IH [OF wf1 sub1 dist1 rem1 ok1]
  have e'_notin: "?e' \<notin> set es"
  proof
    assume "?e' \<in> set es"
    then have "date ?e' \<noteq> date e" by (rule other)
    then show False by simp
  qed
  have pointwise: "(let z = ?f x in if z \<in> set es then z\<lparr>synced := JBool True\<rparr> else z)
        = (if x \<in> set (e # es) then x\<lparr>synced := JBool True\<rparr> else x)" if x: "x \<in> set ?st" for x
  proof (cases "date x = date e")
    case True
    then have "x = e" using wf_store_distinct_keys [OF Cons.prems(1) x e_in] by simp
    then show ?thesis using e'_notin by simp
  next
    case False
    then have "x \<noteq> e" by auto
    then show ?thesis using False by simp
  qed
  have stores: "map (\<lambda>x. if x \<in> set es then x\<lparr>synced := JBool True\<rparr> else x) (map ?f ?st)
      = map (\<lambda>x. if x \<in> set (e # es) then x\<lparr>synced := JBool True\<rparr> else x) ?st"
    unfolding map_map comp_def
    by (rule map_cong [OF refl]) (use pointwise in \<open>simp only: Let_def\<close>)
  have "syncEntries ev (e # es) w = syncEntries ev es ?w1"
    using one by simp
  also have "\<dots> = (None, \<lparr>entries = map (\<lambda>x. if x \<in> set es then x\<lparr>synced := JBool True\<rparr> else x) (map ?f ?st),
              trace = (trace w @ [Submitted e, Stored ?e']) @ pass_trace es\<rparr>)"
    using IH by simp
  also have "\<dots> = (None, \<lparr>entries = map (\<lambda>x. if x \<in> set (e # es) then x\<lparr>synced := JBool True\<rparr> else x) ?st,
              trace = trace w @ pass_trace (e # es)\<rparr>)"
    unfolding stores by (simp add: pass_trace_def)
  finally show ?case .
qed

lemma getUnsynced_ok:
  "idb_ok ev ReqGetAll \<Longrightarrow>
   getUnsyncedEntries ev w = Inr (filter (\<lambda>e. synced e = JBool False) (entries w))"
  by (simp add: getUnsyncedEntries_def DB_getAll_def)

lemma getUnsynced_Inr:
  "getUnsyncedEntries ev w = Inr q \<Longrightarrow> q = filter (\<lambda>e. synced e = JBool False) (entries w)"
  by (auto simp: getUnsyncedEntries_def DB_getAll_def split: if_splits)

lemma mark_prefix_eq:
  "map (\<lambda>x. if x \<in> set (filter (\<lambda>e. synced e = JBool False) st) then x\<lparr>synced := JBool True\<rparr> else x) st
   = map mark_synced st"
  by (rule map_cong [OF refl]) (simp add: mark_synced_def)

lemma onOnline_all_ok:
  assumes wf: "wf_store (entries w)"
    and idb: "\<forall>r. idb_ok ev r"
    and rem: "\<forall>e. remote ev e"
  shows "onOnline ev w =
           (None, \<lparr>entries = map mark_synced (entries w),
                   trace = trace w @ pass_trace (filter (\<lambda>e. synced e = JBool False) (entries w))\<rparr>)"
proof -
  let ?q = "filter (\<lambda>e. synced e = JBool False) (entries w)"
  have g: "getUnsyncedEntries ev w = Inr ?q" using idb by (simp add: getUnsynced_ok)
  show ?thesis
  proof (cases "?q = []")
    case True
    then have "\<forall>x\<in>set (entries w). synced x \<noteq> JBool False"
      by (simp add: filter_empty_conv)
    then have "map mark_synced (entries w) = entries w"
      by (simp add: map_idI mark_synced_def)
    then show ?thesis using g True by (simp add: onOnline_def pass_trace_def)
  next
    case False
    have "syncEntries ev ?q w =
        (None, \<lparr>entries = map (\<lambda>x. if x \<in> set ?q then x\<lparr>synced := JBool True\<rparr> else x) (entries w),
                trace = trace w @ pass_trace ?q\<rparr>)"
    proof (rule syncEntries_all_ok [OF wf])
      show "set ?q \<subseteq> set (entries w)" by simp
      show "distinct (map date ?q)" using wf by (rule wf_store_filter_distinct)
      show "\<forall>e\<in>set ?q. remote ev e" using rem by simp
      show "\<forall>e\<in>set ?q. idb_ok ev (ReqPut (e\<lparr>synced := JBool True\<rparr>))" using idb by simp
    qed
    then have "syncEntries ev ?q w =
        (None, \<lparr>entries = map mark_synced (entries w), trace = trace w @ pass_trace ?q\<rparr>)"
      by (simp only: mark_prefix_eq)
    then show ?thesis using g False by (simp add: onOnline_def)
  qed
qed

text \<open>
  C1. Sync convergence. In a store in key order, with an engine that completes every
  request and a remote service that accepts every submission, one pass of \<^verbatim>\<open>onOnline\<close>
  completes; afterwards \<^verbatim>\<open>getAll()\<close> returns the same records in the same order, each
  record whose flag was \<^verbatim>\<open>false\<close> now with \<^verbatim>\<open>synced = true\<close> and every other field of every
  record unchanged; and the pass stored each entry right after its own submission, before
  it submitted the next one.
\<close>

theorem sync_convergence:
  assumes "wf_store (entries w)" and "\<forall>r. idb_ok ev r" and "\<forall>e. remote ev e"
  shows "\<exists>w'. onOnline ev w = (None, w')
            \<and> DB_getAll ev w' = Inr (map mark_synced (entries w))
            \<and> trace w' = trace w @ pass_trace (filter (\<lambda>e. synced e = JBool False) (entries w))"
  using assms onOnline_all_ok [OF assms] by (simp add: DB_getAll_def)

theorem sync_convergence_witness:
  "onOnline env_ok app_two =
     (None, \<lparr>entries = [entry_may1\<lparr>synced := JBool True\<rparr>, entry_may15\<lparr>synced := JBool True\<rparr>],
             trace = [Submitted entry_may1, Stored (entry_may1\<lparr>synced := JBool True\<rparr>),
                      Submitted entry_may15, Stored (entry_may15\<lparr>synced := JBool True\<rparr>)]\<rparr>)"
proof -
  have wf: "wf_store (entries app_two)"
    by (simp add: wf_store_def app_two_def entry_may1_def entry_may15_def)
  have idb: "\<forall>r. idb_ok env_ok r" by (simp add: env_ok_def)
  have rem: "\<forall>e. remote env_ok e" by (simp add: env_ok_def)
  obtain w' where w': "onOnline env_ok app_two = (None, w')"
      "DB_getAll env_ok w' = Inr (map mark_synced (entries app_two))"
      "trace w' = trace app_two @ pass_trace (filter (\<lambda>e. synced e = JBool False) (entries app_two))"
    using sync_convergence [OF wf idb rem] by blast
  have "entries w' = [entry_may1\<lparr>synced := JBool True\<rparr>, entry_may15\<lparr>synced := JBool True\<rparr>]"
    using w'(2) idb
    by (simp add: DB_getAll_def mark_synced_def app_two_def entry_may1_def entry_may15_def)
  moreover have "trace w' = [Submitted entry_may1, Stored (entry_may1\<lparr>synced := JBool True\<rparr>),
                      Submitted entry_may15, Stored (entry_may15\<lparr>synced := JBool True\<rparr>)]"
    using w'(3) by (simp add: pass_trace_def app_two_def entry_may1_def entry_may15_def)
  ultimately show ?thesis using w'(1) by simp
qed

lemma syncEntries_submitted:
  "Submitted e \<in> set (trace (snd (syncEntries ev q w))) \<Longrightarrow>
   Submitted e \<in> set (trace w) \<or> e \<in> set q"
proof (induction q arbitrary: w)
  case Nil
  then show ?case by simp
next
  case (Cons x xs)
  obtain r w1 where one: "sync_one ev x w = (r, w1)" by (cases "sync_one ev x w")
  have tr: "set (trace w1) \<subseteq> set (trace w) \<union> {Submitted x, Stored (x\<lparr>synced := JBool True\<rparr>)}"
    using one by (auto simp: sync_one_def DB_put_def Let_def split: if_splits)
  show ?case
  proof (cases r)
    case None
    then have "Submitted e \<in> set (trace (snd (syncEntries ev xs w1)))"
      using Cons.prems one by simp
    then have "Submitted e \<in> set (trace w1) \<or> e \<in> set xs" by (rule Cons.IH)
    then show ?thesis using tr by auto
  next
    case (Some err)
    then have "Submitted e \<in> set (trace w1)" using Cons.prems one by simp
    then show ?thesis using tr by auto
  qed
qed

text \<open>
  C10. The sync pass selects exactly the records whose \<^verbatim>\<open>synced\<close> is the boolean
  \<^verbatim>\<open>false\<close>: \<^verbatim>\<open>getUnsyncedEntries\<close> resolves with exactly those records, and whatever the
  remote service and the engine answer, every entry that \<^verbatim>\<open>onOnline\<close> submits is a stored
  record whose flag is \<^verbatim>\<open>false\<close>. A record whose flag is missing, \<^verbatim>\<open>undefined\<close>, \<^verbatim>\<open>null\<close>,
  \<^verbatim>\<open>true\<close> or any other value is never submitted.
\<close>

theorem only_false_is_selected:
  "(getUnsyncedEntries ev w = Inr q \<longrightarrow> q = filter (\<lambda>e. synced e = JBool False) (entries w))
   \<and> (Submitted e \<in> set (trace (snd (onOnline ev w))) \<longrightarrow>
        Submitted e \<in> set (trace w) \<or> (e \<in> set (entries w) \<and> synced e = JBool False))"
proof (intro conjI impI)
  assume "getUnsyncedEntries ev w = Inr q"
  then show "q = filter (\<lambda>e. synced e = JBool False) (entries w)" by (rule getUnsynced_Inr)
next
  assume sub: "Submitted e \<in> set (trace (snd (onOnline ev w)))"
  show "Submitted e \<in> set (trace w) \<or> (e \<in> set (entries w) \<and> synced e = JBool False)"
  proof (cases "getUnsyncedEntries ev w")
    case (Inl err)
    then show ?thesis using sub by (simp add: onOnline_def)
  next
    case (Inr u)
    then have u: "u = filter (\<lambda>e. synced e = JBool False) (entries w)" by (rule getUnsynced_Inr)
    show ?thesis
    proof (cases "u = []")
      case True
      then show ?thesis using sub Inr by (simp add: onOnline_def)
    next
      case False
      then have "Submitted e \<in> set (trace (snd (syncEntries ev u w)))"
        using sub Inr by (simp add: onOnline_def)
      then have "Submitted e \<in> set (trace w) \<or> e \<in> set u" by (rule syncEntries_submitted)
      then show ?thesis using u by auto
    qed
  qed
qed

theorem only_false_is_selected_witness:
  "getUnsyncedEntries env_ok app_mixed = Inr [entry_may1]
   \<and> Submitted entry_may1 \<in> set (trace (snd (onOnline env_ok app_mixed)))
   \<and> entry_may1 \<in> set (entries app_mixed)
   \<and> synced entry_may1 = JBool False
   \<and> Submitted entry_legacy \<notin> set (trace (snd (onOnline env_ok app_mixed)))"
  using only_false_is_selected [of env_ok app_mixed "[entry_may1]" entry_may1]
  by (simp add: getUnsyncedEntries_def DB_getAll_def onOnline_def sync_one_def DB_put_def
      env_ok_def app_mixed_def entry_legacy_def entry_may1_def entry_may15_def)

section \<open>The meaning of the synced flag\<close>

lemma sync_one_trace:
  "sync_one ev e w = (r, w1) \<Longrightarrow>
   trace w1 = trace w @ [Submitted e]
   \<or> (remote ev e \<and> trace w1 = trace w @ [Submitted e, Stored (e\<lparr>synced := JBool True\<rparr>)])"
  by (auto simp: sync_one_def DB_put_def Let_def split: if_splits)

lemma syncEntries_trace_mono: "set (trace w) \<subseteq> set (trace (snd (syncEntries ev q w)))"
proof (induction q arbitrary: w)
  case Nil
  then show ?case by simp
next
  case (Cons e es)
  obtain r w1 where one: "sync_one ev e w = (r, w1)" by (cases "sync_one ev e w")
  have sub: "set (trace w) \<subseteq> set (trace w1)" using sync_one_trace [OF one] by auto
  show ?case
  proof (cases r)
    case None
    then have "snd (syncEntries ev (e # es) w) = snd (syncEntries ev es w1)" using one by simp
    then show ?thesis using sub Cons.IH [of w1] by auto
  next
    case (Some err)
    then show ?thesis using one sub by simp
  qed
qed

lemma syncEntries_stored:
  "Stored x \<in> set (trace (snd (syncEntries ev q w))) \<Longrightarrow>
   Stored x \<in> set (trace w)
   \<or> (\<exists>e\<in>set q. remote ev e \<and> x = e\<lparr>synced := JBool True\<rparr>
         \<and> Submitted e \<in> set (trace (snd (syncEntries ev q w))))"
proof (induction q arbitrary: w)
  case Nil
  then show ?case by simp
next
  case (Cons e es)
  obtain r w1 where one: "sync_one ev e w = (r, w1)" by (cases "sync_one ev e w")
  note tr = sync_one_trace [OF one]
  show ?case
  proof (cases r)
    case (Some err)
    then have fin: "snd (syncEntries ev (e # es) w) = w1" using one by simp
    have "Stored x \<in> set (trace w1)" using Cons.prems fin by simp
    then show ?thesis using tr fin by auto
  next
    case None
    then have fin: "snd (syncEntries ev (e # es) w) = snd (syncEntries ev es w1)" using one by simp
    have mono: "set (trace w1) \<subseteq> set (trace (snd (syncEntries ev es w1)))"
      by (rule syncEntries_trace_mono)
    have "Stored x \<in> set (trace (snd (syncEntries ev es w1)))" using Cons.prems fin by simp
    then have "Stored x \<in> set (trace w1)
       \<or> (\<exists>y\<in>set es. remote ev y \<and> x = y\<lparr>synced := JBool True\<rparr>
             \<and> Submitted y \<in> set (trace (snd (syncEntries ev es w1))))"
      by (rule Cons.IH)
    then show ?thesis
    proof
      assume "Stored x \<in> set (trace w1)"
      then have "Stored x \<in> set (trace w) \<or> (remote ev e \<and> x = e\<lparr>synced := JBool True\<rparr>)"
        using tr by auto
      moreover have "Submitted e \<in> set (trace w1)" using tr by auto
      then have "Submitted e \<in> set (trace (snd (syncEntries ev (e # es) w)))"
        using mono fin by auto
      ultimately show ?thesis by auto
    next
      assume "\<exists>y\<in>set es. remote ev y \<and> x = y\<lparr>synced := JBool True\<rparr>
             \<and> Submitted y \<in> set (trace (snd (syncEntries ev es w1)))"
      then show ?thesis using fin by auto
    qed
  qed
qed

text \<open>
  C5 (as amended). The save action writes the record with \<^verbatim>\<open>synced\<close> equal to the
  connectivity flag \<^verbatim>\<open>navigator.onLine\<close> read at the click: \<^verbatim>\<open>false\<close> when the page is offline,
  \<^verbatim>\<open>true\<close> when it is online, and in neither case does it submit anything to the remote
  service. A sync pass stores a record only with \<^verbatim>\<open>synced = true\<close>, only for a stored entry
  whose flag was \<^verbatim>\<open>false\<close>, and only after it submitted that entry and the submission was
  accepted.
\<close>

theorem synced_flag_follows_connectivity:
  "(m \<noteq> 0 \<and> idb_ok ev (ReqPut \<lparr>date = d, mood = m, note = n, timestamp = t, synced = JBool online\<rparr>) \<longrightarrow>
      (\<exists>w'. saveEntry ev online d (Some m) n t w = (None, w')
           \<and> store_get d (entries w')
               = Some \<lparr>date = d, mood = m, note = n, timestamp = t, synced = JBool online\<rparr>
           \<and> trace w'
               = trace w @ [Stored \<lparr>date = d, mood = m, note = n, timestamp = t, synced = JBool online\<rparr>]))
   \<and> (Stored x \<in> set (trace (snd (onOnline ev v))) \<longrightarrow>
        Stored x \<in> set (trace v)
        \<or> (\<exists>e\<in>set (entries v). synced e = JBool False \<and> remote ev e
              \<and> x = e\<lparr>synced := JBool True\<rparr>
              \<and> Submitted e \<in> set (trace (snd (onOnline ev v)))))"
proof (intro conjI impI)
  assume "m \<noteq> 0 \<and> idb_ok ev (ReqPut \<lparr>date = d, mood = m, note = n, timestamp = t, synced = JBool online\<rparr>)"
  then show "\<exists>w'. saveEntry ev online d (Some m) n t w = (None, w')
           \<and> store_get d (entries w')
               = Some \<lparr>date = d, mood = m, note = n, timestamp = t, synced = JBool online\<rparr>
           \<and> trace w'
               = trace w @ [Stored \<lparr>date = d, mood = m, note = n, timestamp = t, synced = JBool online\<rparr>]"
    using store_get_put_same [of "\<lparr>date = d, mood = m, note = n, timestamp = t, synced = JBool online\<rparr>" "entries w"]
    by (simp add: saveEntry_def DB_put_def)
next
  assume st: "Stored x \<in> set (trace (snd (onOnline ev v)))"
  show "Stored x \<in> set (trace v)
        \<or> (\<exists>e\<in>set (entries v). synced e = JBool False \<and> remote ev e
              \<and> x = e\<lparr>synced := JBool True\<rparr>
              \<and> Submitted e \<in> set (trace (snd (onOnline ev v))))"
  proof (cases "getUnsyncedEntries ev v")
    case (Inl err)
    then show ?thesis using st by (simp add: onOnline_def)
  next
    case (Inr u)
    then have u: "u = filter (\<lambda>e. synced e = JBool False) (entries v)" by (rule getUnsynced_Inr)
    show ?thesis
    proof (cases "u = []")
      case True
      then show ?thesis using st Inr by (simp add: onOnline_def)
    next
      case False
      then have eq: "onOnline ev v = syncEntries ev u v" using Inr by (simp add: onOnline_def)
      then have "Stored x \<in> set (trace (snd (syncEntries ev u v)))" using st by simp
      then have "Stored x \<in> set (trace v)
         \<or> (\<exists>e\<in>set u. remote ev e \<and> x = e\<lparr>synced := JBool True\<rparr>
               \<and> Submitted e \<in> set (trace (snd (syncEntries ev u v))))"
        by (rule syncEntries_stored)
      then show ?thesis unfolding eq using u by auto
    qed
  qed
qed

theorem synced_flag_follows_connectivity_witness:
  "saveEntry env_ok False ''2024-05-01'' (Some 4) ''ok'' 1714550400000 app_empty
     = (None, \<lparr>entries = [entry_may1], trace = [Stored entry_may1]\<rparr>)
   \<and> trace (snd (onOnline env_ok \<lparr>entries = [entry_may1], trace = [Stored entry_may1]\<rparr>))
     = [Stored entry_may1, Submitted entry_may1, Stored (entry_may1\<lparr>synced := JBool True\<rparr>)]"
  using synced_flag_follows_connectivity [where m = 4 and ev = env_ok and d = "''2024-05-01''"
      and n = "''ok''" and t = 1714550400000 and online = False and w = app_empty
      and x = "entry_may1\<lparr>synced := JBool True\<rparr>"
      and v = "\<lparr>entries = [entry_may1], trace = [Stored entry_may1]\<rparr>"]
  by (simp add: saveEntry_def DB_put_def onOnline_def getUnsyncedEntries_def DB_getAll_def
      sync_one_def env_ok_def app_empty_def entry_may1_def)

text \<open>
  The claim as stated fails: an entry saved while the page is online is stored with
  \<^verbatim>\<open>synced = true\<close>, and nothing was submitted to the remote service.
\<close>

theorem online_save_counterexample:
  "saveEntry env_ok True ''2024-05-01'' (Some 4) ''ok'' 1714550400000 app_empty
     = (None, \<lparr>entries = [entry_may1\<lparr>synced := JBool True\<rparr>],
               trace = [Stored (entry_may1\<lparr>synced := JBool True\<rparr>)]\<rparr>)
   \<and> Submitted entry_may1 \<notin> set (trace (snd (saveEntry env_ok True ''2024-05-01'' (Some 4) ''ok''
        1714550400000 app_empty)))"
  by (simp add: saveEntry_def DB_put_def env_ok_def app_empty_def entry_may1_def)

section \<open>Re-entrancy\<close>

lemma filter_update_new:
  "i < length xs \<Longrightarrow> \<not> P (xs ! i) \<Longrightarrow> P y \<Longrightarrow>
   length (filter P (xs[i := y])) = Suc (length (filter P xs))"
proof -
  assume i: "i < length xs" and n: "\<not> P (xs ! i)" and y: "P y"
  have a: "xs[i := y] = take i xs @ y # drop (Suc i) xs" using i by (rule upd_conv_take_nth_drop)
  have b: "xs = take i xs @ xs ! i # drop (Suc i) xs" using i by (rule id_take_nth_drop)
  have "length (filter P xs) = length (filter P (take i xs)) + length (filter P (drop (Suc i) xs))"
    using n by (subst b) simp
  moreover have "length (filter P (xs[i := y]))
      = Suc (length (filter P (take i xs)) + length (filter P (drop (Suc i) xs)))"
    using y by (simp add: a)
  ultimately show ?thesis by simp
qed

lemma run_Cons: "run ev (x # xs) p = run ev xs (step ev x p)"
  by (simp add: run_def)

lemma run_append: "run ev (xs @ ys) p = run ev ys (run ev xs p)"
  by (simp add: run_def)

lemma step_Online:
  "step ev Online p = \<lparr>world = world p, tasks = tasks p @ [Reading (getUnsyncedEntries ev (world p))]\<rparr>"
  by (simp add: step_def)

lemma step_Advance:
  "i < length ts \<Longrightarrow> resume ev (ts ! i) w = (t, w') \<Longrightarrow>
   step ev (Advance i) \<lparr>world = w, tasks = ts\<rparr> = \<lparr>world = w', tasks = ts[i := t]\<rparr>"
  by (simp add: step_def)

lemma run_finished:
  "i < length ts \<Longrightarrow> ts ! i = Finished \<Longrightarrow>
   run ev (replicate k (Advance i)) \<lparr>world = w, tasks = ts\<rparr> = \<lparr>world = w, tasks = ts\<rparr>"
proof (induction k)
  case 0
  then show ?case by (simp add: run_def)
next
  case (Suc k)
  have "step ev (Advance i) \<lparr>world = w, tasks = ts\<rparr> = \<lparr>world = w, tasks = ts[i := Finished]\<rparr>"
    using Suc.prems by (intro step_Advance) simp_all
  moreover have "ts[i := Finished] = ts" using Suc.prems by (metis list_update_id)
  ultimately show ?case using Suc by (simp add: run_Cons)
qed

text \<open>
  A pass that is left to run alone does what \<open>syncEntries\<close> does, whatever the other tasks are.
\<close>

lemma run_pass:
  "i < length ts \<Longrightarrow> ts ! i = Submitting (e # es) \<Longrightarrow>
   run ev (replicate (2 * length (e # es)) (Advance i))
       \<lparr>world = w\<lparr>trace := trace w @ [Submitted e]\<rparr>, tasks = ts\<rparr>
     = \<lparr>world = snd (syncEntries ev (e # es) w), tasks = ts[i := Finished]\<rparr>"
proof (induction es arbitrary: e w ts)
  case Nil
  let ?w1 = "w\<lparr>trace := trace w @ [Submitted e]\<rparr>"
  show ?case
  proof (cases "remote ev e")
    case False
    have s1: "step ev (Advance i) \<lparr>world = ?w1, tasks = ts\<rparr> = \<lparr>world = ?w1, tasks = ts[i := Finished]\<rparr>"
      using Nil.prems False by (intro step_Advance) simp_all
    have idle: "run ev (replicate 1 (Advance i)) \<lparr>world = ?w1, tasks = ts[i := Finished]\<rparr>
        = \<lparr>world = ?w1, tasks = ts[i := Finished]\<rparr>"
      using Nil.prems by (intro run_finished) simp_all
    have "run ev (replicate (2 * length [e]) (Advance i)) \<lparr>world = ?w1, tasks = ts\<rparr>
        = run ev (replicate 1 (Advance i)) (step ev (Advance i) \<lparr>world = ?w1, tasks = ts\<rparr>)"
      by (simp add: run_def numeral_2_eq_2)
    then show ?thesis unfolding s1 idle using False by (simp add: sync_one_def)
  next
    case True
    obtain r w2 where put: "DB_put ev (e\<lparr>synced := JBool True\<rparr>) ?w1 = (r, w2)"
      by (cases "DB_put ev (e\<lparr>synced := JBool True\<rparr>) ?w1")
    have s1: "step ev (Advance i) \<lparr>world = ?w1, tasks = ts\<rparr> = \<lparr>world = w2, tasks = ts[i := Storing r []]\<rparr>"
      using Nil.prems True put by (intro step_Advance) simp_all
    have s2: "step ev (Advance i) \<lparr>world = w2, tasks = ts[i := Storing r []]\<rparr>
        = \<lparr>world = w2, tasks = ts[i := Finished]\<rparr>"
    proof -
      have "resume ev (ts[i := Storing r []] ! i) w2 = (Finished, w2)"
        using Nil.prems by (cases r) simp_all
      then have "step ev (Advance i) \<lparr>world = w2, tasks = ts[i := Storing r []]\<rparr>
          = \<lparr>world = w2, tasks = ts[i := Storing r [], i := Finished]\<rparr>"
        using Nil.prems by (intro step_Advance) simp_all
      then show ?thesis by simp
    qed
    have fin: "snd (syncEntries ev [e] w) = w2"
      using True put by (cases r) (simp_all add: sync_one_def)
    have "run ev (replicate (2 * length [e]) (Advance i)) \<lparr>world = ?w1, tasks = ts\<rparr>
        = step ev (Advance i) (step ev (Advance i) \<lparr>world = ?w1, tasks = ts\<rparr>)"
      by (simp add: run_def numeral_2_eq_2)
    then show ?thesis unfolding s1 s2 fin .
  qed
next
  case (Cons e2 es)
  let ?w1 = "w\<lparr>trace := trace w @ [Submitted e]\<rparr>"
  have len: "replicate (2 * length (e # e2 # es)) (Advance i)
      = Advance i # Advance i # replicate (2 * length (e2 # es)) (Advance i)"
    by simp
  show ?case
  proof (cases "remote ev e")
    case False
    have s1: "step ev (Advance i) \<lparr>world = ?w1, tasks = ts\<rparr> = \<lparr>world = ?w1, tasks = ts[i := Finished]\<rparr>"
      using Cons.prems False by (intro step_Advance) simp_all
    have "run ev (replicate (Suc (2 * length (e2 # es))) (Advance i)) \<lparr>world = ?w1, tasks = ts[i := Finished]\<rparr>
        = \<lparr>world = ?w1, tasks = ts[i := Finished]\<rparr>"
      using Cons.prems by (intro run_finished) simp_all
    then have "run ev (Advance i # replicate (2 * length (e2 # es)) (Advance i)) \<lparr>world = ?w1, tasks = ts[i := Finished]\<rparr>
        = \<lparr>world = ?w1, tasks = ts[i := Finished]\<rparr>"
      by simp
    then show ?thesis unfolding len using s1 False by (simp add: run_Cons sync_one_def)
  next
    case True
    obtain r w2 where put: "DB_put ev (e\<lparr>synced := JBool True\<rparr>) ?w1 = (r, w2)"
      by (cases "DB_put ev (e\<lparr>synced := JBool True\<rparr>) ?w1")
    have s1: "step ev (Advance i) \<lparr>world = ?w1, tasks = ts\<rparr>
        = \<lparr>world = w2, tasks = ts[i := Storing r (e2 # es)]\<rparr>"
      using Cons.prems True put by (intro step_Advance) simp_all
    show ?thesis
    proof (cases r)
      case (Some err)
      have "resume ev (ts[i := Storing r (e2 # es)] ! i) w2 = (Finished, w2)"
        using Cons.prems Some by simp
      then have "step ev (Advance i) \<lparr>world = w2, tasks = ts[i := Storing r (e2 # es)]\<rparr>
          = \<lparr>world = w2, tasks = ts[i := Storing r (e2 # es), i := Finished]\<rparr>"
        using Cons.prems by (intro step_Advance) simp_all
      then have s2: "step ev (Advance i) \<lparr>world = w2, tasks = ts[i := Storing r (e2 # es)]\<rparr>
          = \<lparr>world = w2, tasks = ts[i := Finished]\<rparr>"
        by simp
      have idle: "run ev (replicate (2 * length (e2 # es)) (Advance i)) \<lparr>world = w2, tasks = ts[i := Finished]\<rparr>
          = \<lparr>world = w2, tasks = ts[i := Finished]\<rparr>"
        using Cons.prems by (intro run_finished) simp_all
      have "snd (syncEntries ev (e # e2 # es) w) = w2"
        using True put Some by (simp add: sync_one_def)
      then show ?thesis unfolding len using s1 s2 idle by (simp add: run_Cons)
    next
      case None
      let ?ts2 = "ts[i := Submitting (e2 # es)]"
      have "resume ev (ts[i := Storing r (e2 # es)] ! i) w2
          = (Submitting (e2 # es), w2\<lparr>trace := trace w2 @ [Submitted e2]\<rparr>)"
        using Cons.prems None by simp
      then have "step ev (Advance i) \<lparr>world = w2, tasks = ts[i := Storing r (e2 # es)]\<rparr>
          = \<lparr>world = w2\<lparr>trace := trace w2 @ [Submitted e2]\<rparr>,
             tasks = ts[i := Storing r (e2 # es), i := Submitting (e2 # es)]\<rparr>"
        using Cons.prems by (intro step_Advance) simp_all
      then have s2: "step ev (Advance i) \<lparr>world = w2, tasks = ts[i := Storing r (e2 # es)]\<rparr>
          = \<lparr>world = w2\<lparr>trace := trace w2 @ [Submitted e2]\<rparr>, tasks = ?ts2\<rparr>"
        by simp
      have IH: "run ev (replicate (2 * length (e2 # es)) (Advance i))
            \<lparr>world = w2\<lparr>trace := trace w2 @ [Submitted e2]\<rparr>, tasks = ?ts2\<rparr>
          = \<lparr>world = snd (syncEntries ev (e2 # es) w2), tasks = ?ts2[i := Finished]\<rparr>"
        using Cons.prems by (intro Cons.IH) simp_all
      have "snd (syncEntries ev (e # e2 # es) w) = snd (syncEntries ev (e2 # es) w2)"
        using True put None by (simp add: sync_one_def)
      then show ?thesis unfolding len using s1 s2 IH by (simp add: run_Cons)
    qed
  qed
qed

text \<open>
  A call of \<^verbatim>\<open>onOnline\<close> that runs with nothing else in between leaves the state that
  \<open>onOnline\<close> computes, whatever calls are in flight when it starts.
\<close>

lemma run_call:
  "run ev (Online # Advance (length (tasks p))
            # replicate (2 * length (filter (\<lambda>e. synced e = JBool False) (entries (world p))))
                (Advance (length (tasks p)))) p
   = \<lparr>world = snd (onOnline ev (world p)), tasks = tasks p @ [Finished]\<rparr>"
proof -
  let ?n = "length (tasks p)"
  let ?q = "filter (\<lambda>e. synced e = JBool False) (entries (world p))"
  let ?r = "getUnsyncedEntries ev (world p)"
  let ?ts = "tasks p @ [Reading ?r]"
  have n: "?n < length ?ts" by simp
  have at: "?ts ! ?n = Reading ?r" by simp
  have fin: "(tasks p @ [t])[?n := t'] = tasks p @ [t']" for t t' by simp
  have start: "run ev (Online # Advance ?n # replicate (2 * length ?q) (Advance ?n)) p
      = run ev (replicate (2 * length ?q) (Advance ?n)) (step ev (Advance ?n) \<lparr>world = world p, tasks = ?ts\<rparr>)"
    by (simp add: run_Cons step_Online)
  show ?thesis
  proof (cases ?r)
    case (Inl err)
    then have "resume ev (?ts ! ?n) (world p) = (Finished, world p)" by simp
    then have "step ev (Advance ?n) \<lparr>world = world p, tasks = ?ts\<rparr>
        = \<lparr>world = world p, tasks = ?ts[?n := Finished]\<rparr>"
      using n by (rule step_Advance [rotated])
    then have s: "step ev (Advance ?n) \<lparr>world = world p, tasks = ?ts\<rparr>
        = \<lparr>world = world p, tasks = tasks p @ [Finished]\<rparr>"
      by simp
    have "run ev (replicate (2 * length ?q) (Advance ?n)) \<lparr>world = world p, tasks = tasks p @ [Finished]\<rparr>
        = \<lparr>world = world p, tasks = tasks p @ [Finished]\<rparr>"
      by (intro run_finished) simp_all
    then show ?thesis unfolding start s using Inl by (simp add: onOnline_def)
  next
    case (Inr u)
    then have u: "u = ?q" by (rule getUnsynced_Inr)
    show ?thesis
    proof (cases u)
      case Nil
      then have "resume ev (?ts ! ?n) (world p) = (Finished, world p)" using Inr by simp
      then have "step ev (Advance ?n) \<lparr>world = world p, tasks = ?ts\<rparr>
          = \<lparr>world = world p, tasks = ?ts[?n := Finished]\<rparr>"
        using n by (rule step_Advance [rotated])
      then have s: "step ev (Advance ?n) \<lparr>world = world p, tasks = ?ts\<rparr>
          = \<lparr>world = world p, tasks = tasks p @ [Finished]\<rparr>"
        by simp
      have "run ev (replicate (2 * length ?q) (Advance ?n)) \<lparr>world = world p, tasks = tasks p @ [Finished]\<rparr>
          = \<lparr>world = world p, tasks = tasks p @ [Finished]\<rparr>"
        by (intro run_finished) simp_all
      then show ?thesis unfolding start s using Inr Nil by (simp add: onOnline_def)
    next
      case (Cons e es)
      let ?w1 = "(world p)\<lparr>trace := trace (world p) @ [Submitted e]\<rparr>"
      let ?ts1 = "tasks p @ [Submitting (e # es)]"
      have "resume ev (?ts ! ?n) (world p) = (Submitting (e # es), ?w1)" using Inr Cons by simp
      then have "step ev (Advance ?n) \<lparr>world = world p, tasks = ?ts\<rparr>
          = \<lparr>world = ?w1, tasks = ?ts[?n := Submitting (e # es)]\<rparr>"
        using n by (rule step_Advance [rotated])
      then have s: "step ev (Advance ?n) \<lparr>world = world p, tasks = ?ts\<rparr> = \<lparr>world = ?w1, tasks = ?ts1\<rparr>"
        by simp
      have qe: "?q = e # es" using u Cons by simp
      have "run ev (replicate (2 * length (e # es)) (Advance ?n)) \<lparr>world = ?w1, tasks = ?ts1\<rparr>
          = \<lparr>world = snd (syncEntries ev (e # es) (world p)), tasks = ?ts1[?n := Finished]\<rparr>"
        by (intro run_pass) simp_all
      then have pass: "run ev (replicate (2 * length (e # es)) (Advance ?n)) \<lparr>world = ?w1, tasks = ?ts1\<rparr>
          = \<lparr>world = snd (syncEntries ev (e # es) (world p)), tasks = tasks p @ [Finished]\<rparr>"
        by simp
      have onl: "onOnline ev (world p) = syncEntries ev (e # es) (world p)"
        using Inr Cons by (simp add: onOnline_def)
      have "run ev (Online # Advance ?n # replicate (2 * length ?q) (Advance ?n)) p
          = run ev (replicate (2 * length ?q) (Advance ?n)) \<lparr>world = ?w1, tasks = ?ts1\<rparr>"
        by (simp only: start s)
      also have "\<dots> = \<lparr>world = snd (syncEntries ev (e # es) (world p)), tasks = tasks p @ [Finished]\<rparr>"
        unfolding qe by (rule pass)
      finally show ?thesis unfolding onl .
    qed
  qed
qed

lemma count_list_pass_trace: "count_list (pass_trace q) (Submitted e) = count_list q e"
  by (induction q) (simp_all add: pass_trace_def)

lemma count_list_distinct: "distinct xs \<Longrightarrow> x \<in> set xs \<Longrightarrow> count_list xs x = 1"
  by (induction xs) auto

lemma count_list_app: "count_list (xs @ ys) x = count_list xs x + count_list ys x"
  by (induction xs) simp_all

text \<open>
  C3 (as amended). There is no re-entrancy guard. Whatever calls and passes are in flight,
  a connectivity-regained event starts a new call, and when the store holds unsynced
  records \<open>q\<close> at that moment, the call starts a pass of its own over \<open>q\<close> as soon as its read
  is delivered: the first submission is started and the number of passes in flight grows by
  one. The trigger is neither ignored nor put off until a pass in flight has completed.
  Left to run, the new call does to the store and to the remote service exactly what
  \<open>onOnline\<close> does; with a store in key order, an engine that completes every request and a
  remote service that accepts every submission, it stores every record of \<open>q\<close> with
  \<^verbatim>\<open>synced = true\<close> and submits every record of \<open>q\<close> once more, however often it has been
  submitted before.
\<close>

theorem no_reentrancy_guard:
  assumes "getUnsyncedEntries ev (world p) = Inr q" and "q \<noteq> []"
  shows "run ev [Online, Advance (length (tasks p))] p
           = \<lparr>world = (world p)\<lparr>trace := trace (world p) @ [Submitted (hd q)]\<rparr>,
              tasks = tasks p @ [Submitting q]\<rparr>
     \<and> passes_in_flight (run ev [Online, Advance (length (tasks p))] p) = Suc (passes_in_flight p)
     \<and> run ev (Online # Advance (length (tasks p))
                 # replicate (2 * length q) (Advance (length (tasks p)))) p
           = \<lparr>world = snd (onOnline ev (world p)), tasks = tasks p @ [Finished]\<rparr>
     \<and> (wf_store (entries (world p)) \<and> (\<forall>r. idb_ok ev r) \<and> (\<forall>e. remote ev e) \<longrightarrow>
          snd (onOnline ev (world p))
            = \<lparr>entries = map mark_synced (entries (world p)),
               trace = trace (world p) @ pass_trace q\<rparr>
          \<and> (\<forall>e\<in>set q. count_list (trace (snd (onOnline ev (world p)))) (Submitted e)
                           = Suc (count_list (trace (world p)) (Submitted e))))"
proof (intro conjI impI)
  let ?n = "length (tasks p)"
  let ?ts = "tasks p @ [Reading (Inr q)]"
  obtain e es where q: "q = e # es" using assms(2) by (cases q) auto
  have qf: "q = filter (\<lambda>e. synced e = JBool False) (entries (world p))"
    using assms(1) by (rule getUnsynced_Inr)
  have "resume ev (?ts ! ?n) (world p)
      = (Submitting q, (world p)\<lparr>trace := trace (world p) @ [Submitted (hd q)]\<rparr>)"
    using q by simp
  then have "step ev (Advance ?n) \<lparr>world = world p, tasks = ?ts\<rparr>
      = \<lparr>world = (world p)\<lparr>trace := trace (world p) @ [Submitted (hd q)]\<rparr>,
         tasks = ?ts[?n := Submitting q]\<rparr>"
    by (intro step_Advance) simp_all
  then show first: "run ev [Online, Advance ?n] p
      = \<lparr>world = (world p)\<lparr>trace := trace (world p) @ [Submitted (hd q)]\<rparr>,
         tasks = tasks p @ [Submitting q]\<rparr>"
    using assms(1) by (simp add: run_def step_Online)
  show "passes_in_flight (run ev [Online, Advance ?n] p) = Suc (passes_in_flight p)"
    unfolding first by (simp add: passes_in_flight_def)
  show "run ev (Online # Advance ?n # replicate (2 * length q) (Advance ?n)) p
      = \<lparr>world = snd (onOnline ev (world p)), tasks = tasks p @ [Finished]\<rparr>"
    unfolding qf by (rule run_call)
next
  assume h: "wf_store (entries (world p)) \<and> (\<forall>r. idb_ok ev r) \<and> (\<forall>e. remote ev e)"
  have qf: "q = filter (\<lambda>e. synced e = JBool False) (entries (world p))"
    using assms(1) by (rule getUnsynced_Inr)
  have "onOnline ev (world p) =
      (None, \<lparr>entries = map mark_synced (entries (world p)),
              trace = trace (world p) @ pass_trace (filter (\<lambda>e. synced e = JBool False) (entries (world p)))\<rparr>)"
    using h by (intro onOnline_all_ok) simp_all
  then show res: "snd (onOnline ev (world p))
      = \<lparr>entries = map mark_synced (entries (world p)), trace = trace (world p) @ pass_trace q\<rparr>"
    using qf by simp
  have "distinct (map date q)" unfolding qf using h by (intro wf_store_filter_distinct) simp
  then have dq: "distinct q" by (simp add: distinct_map)
  show "\<forall>e\<in>set q. count_list (trace (snd (onOnline ev (world p)))) (Submitted e)
            = Suc (count_list (trace (world p)) (Submitted e))"
    unfolding res using dq
    by (simp add: count_list_app count_list_pass_trace count_list_distinct)
qed

theorem no_reentrancy_guard_witness:
  "run env_ok [Online, Advance 0] page_one = page_in_flight
   \<and> run env_ok [Online, Advance 1] page_in_flight
       = \<lparr>world = \<lparr>entries = [entry_may1], trace = [Submitted entry_may1, Submitted entry_may1]\<rparr>,
          tasks = [Submitting [entry_may1], Submitting [entry_may1]]\<rparr>
   \<and> passes_in_flight (run env_ok [Online, Advance 1] page_in_flight) = 2
   \<and> run env_ok [Online, Advance 1, Advance 1, Advance 1] page_in_flight
       = \<lparr>world = \<lparr>entries = [entry_may1\<lparr>synced := JBool True\<rparr>],
                    trace = [Submitted entry_may1, Submitted entry_may1,
                             Stored (entry_may1\<lparr>synced := JBool True\<rparr>)]\<rparr>,
          tasks = [Submitting [entry_may1], Finished]\<rparr>"
  using no_reentrancy_guard [of env_ok page_in_flight "[entry_may1]"]
  by (simp add: run_def step_def passes_in_flight_def getUnsyncedEntries_def DB_getAll_def DB_put_def
      onOffline_def env_ok_def page_one_def app_one_def page_in_flight_def entry_may1_def)

text \<open>
  The claim as stated fails: a second connectivity-regained event that arrives while the
  pass of the first awaits its submission starts a second pass at once. Two passes are in
  flight, both have started the submission of the same record, and both store it.
\<close>

theorem two_passes_counterexample:
  "passes_in_flight (run env_ok [Online, Advance 0, Online, Advance 1] page_one) = 2
   \<and> \<not> passes_in_flight (run env_ok [Online, Advance 0, Online, Advance 1] page_one) \<le> 1
   \<and> trace (world (run env_ok [Online, Advance 0, Online, Advance 1] page_one))
       = [Submitted entry_may1, Submitted entry_may1]
   \<and> run env_ok [Online, Advance 0, Online, Advance 1, Advance 0, Advance 1, Advance 0, Advance 1]
        page_one
       = \<lparr>world = \<lparr>entries = [entry_may1\<lparr>synced := JBool True\<rparr>],
                    trace = [Submitted entry_may1, Submitted entry_may1,
                             Stored (entry_may1\<lparr>synced := JBool True\<rparr>),
                             Stored (entry_may1\<lparr>synced := JBool True\<rparr>)]\<rparr>,
          tasks = [Finished, Finished]\<rparr>"
  by (simp add: run_def step_def passes_in_flight_def getUnsyncedEntries_def DB_getAll_def DB_put_def
      onOffline_def env_ok_def page_one_def app_one_def entry_may1_def)

section \<open>Cache manager\<close>

lemma map_of_with_cache:
  "map_of (with_cache n f cs) k = (if k = n then map_option f (map_of cs k) else map_of cs k)"
  by (induction cs) (auto simp: with_cache_def)

lemma map_of_caches_open:
  "map_of (caches_open n cs) k
     = (if k = n then Some (case map_of cs n of None \<Rightarrow> [] | Some c \<Rightarrow> c) else map_of cs k)"
  by (auto simp: caches_open_def map_add_def split: option.splits)

lemma map_of_filter_other: "k \<noteq> u \<Longrightarrow> map_of (filter (\<lambda>p. fst p \<noteq> u) c) k = map_of c k"
  by (induction c) auto

lemma map_of_filter_same: "map_of (filter (\<lambda>p. fst p \<noteq> u) c) u = None"
  by (induction c) auto

lemma cache_match_put:
  "cache_match k (cache_put u r c) = (if k = u then Some r else cache_match k c)"
  by (auto simp: cache_match_def cache_put_def map_add_def map_of_filter_other map_of_filter_same
      split: option.splits)

lemma cache_match_Nil: "cache_match k [] = None"
  by (simp add: cache_match_def)

lemma cached_in_put_runtime:
  "status r \<noteq> 206 \<Longrightarrow>
   cached_in CACHE_NAME k (caches (put_runtime req r s))
     = (if k = url req then Some r else cached_in CACHE_NAME k (caches s))"
  by (auto simp: cached_in_def put_runtime_def map_of_with_cache map_of_caches_open cache_match_put
      cache_match_Nil split: option.splits)

lemma cached_in_put_runtime_refused:
  "status r = 206 \<Longrightarrow>
   cached_in CACHE_NAME k (caches (put_runtime req r s)) = cached_in CACHE_NAME k (caches s)"
  by (auto simp: cached_in_def put_runtime_def map_of_caches_open cache_match_Nil
      split: option.splits)

lemma put_runtime_fields:
  "fetched (put_runtime req r s) = fetched s" "skip_waiting (put_runtime req r s) = skip_waiting s"
  by (simp_all add: put_runtime_def)

text \<open>
  C9. Cache-first for every request that is not a navigation. When some cache holds a match,
  the listener answers with it and sends nothing to the network (the state, with its list
  of network fetches, is unchanged). Otherwise it sends the request to the network and
  answers with what the network gives; it stores the response in the runtime cache when the
  response has status 200 and type \<^verbatim>\<open>basic\<close> (same origin), and leaves every cache as it was
  when the status is not 200, when the type is not \<^verbatim>\<open>basic\<close> (an opaque or other
  cross-origin response), or when the fetch fails.
\<close>

theorem cache_first:
  assumes "mode req \<noteq> Navigate"
  shows "(caches_match (url req) (caches s) = Some cached \<longrightarrow>
            fetch_listener net req s = (Some cached, s))
   \<and> (caches_match (url req) (caches s) = None \<longrightarrow>
        fst (fetch_listener net req s) = net req
        \<and> fetched (snd (fetch_listener net req s)) = fetched s @ [req]
        \<and> (net req = Some r \<and> status r = 200 \<and> rtype r = Basic \<longrightarrow>
             snd (fetch_listener net req s) = put_runtime req r (s\<lparr>fetched := fetched s @ [req]\<rparr>)
             \<and> cached_in CACHE_NAME (url req) (caches (snd (fetch_listener net req s))) = Some r)
        \<and> (net req = None \<or> (net req = Some r \<and> (status r \<noteq> 200 \<or> rtype r \<noteq> Basic)) \<longrightarrow>
             caches (snd (fetch_listener net req s)) = caches s))"
  using assms
  by (auto simp: fetch_listener_def Let_def cached_in_put_runtime put_runtime_fields
      split: option.splits)

theorem cache_first_witness:
  "fetch_listener net_ok get_data sw_empty
     = (Some page_200, \<lparr>caches = [(CACHE_NAME, [(''./data.json'', page_200)])],
                        skip_waiting = False, fetched = [get_data]\<rparr>)
   \<and> fetch_listener net_down get_data
        \<lparr>caches = [(CACHE_NAME, [(''./data.json'', page_200)])], skip_waiting = False, fetched = [get_data]\<rparr>
     = (Some page_200, \<lparr>caches = [(CACHE_NAME, [(''./data.json'', page_200)])],
                        skip_waiting = False, fetched = [get_data]\<rparr>)
   \<and> fetch_listener net_404 get_data sw_empty
     = (Some page_404, \<lparr>caches = [], skip_waiting = False, fetched = [get_data]\<rparr>)"
  using cache_first [of get_data sw_empty page_200 net_ok page_200]
    cache_first [of get_data sw_empty page_404 net_404 page_404]
    cache_first [of get_data "\<lparr>caches = [(CACHE_NAME, [(''./data.json'', page_200)])], skip_waiting = False, fetched = [get_data]\<rparr>" page_200 net_down page_200]
  by (simp add: fetch_listener_def put_runtime_def with_cache_def caches_open_def cache_put_def
      cache_match_def net_ok_def net_down_def net_404_def get_data_def sw_empty_def page_200_def
      page_404_def CACHE_NAME_def)

lemma cached_in_Cons:
  "cached_in n u ((k, c) # cs) = (if k = n then cache_match u c else cached_in n u cs)"
  by (simp add: cached_in_def)

lemma cached_in_caches_match:
  "cached_in n u cs = Some r \<Longrightarrow> \<exists>doc. caches_match u cs = Some doc"
proof (induction cs)
  case Nil
  then show ?case by (simp add: cached_in_def)
next
  case (Cons p cs)
  obtain k c where p: "p = (k, c)" by (cases p)
  show ?case
  proof (cases "cache_match u c")
    case (Some doc)
    then show ?thesis using p by simp
  next
    case None
    then have "cached_in n u cs = Some r" using Cons.prems p by (simp add: cached_in_Cons split: if_splits)
    then show ?thesis using Cons.IH None p by simp
  qed
qed

lemma shell_cached_match: "shell_cached cs \<Longrightarrow> \<exists>doc. caches_match ''./index.html'' cs = Some doc"
  using cached_in_caches_match [of CACHE_NAME "''./index.html''" cs]
  by (auto simp: shell_cached_def)

lemma fetch_all_urls: "fetch_all net us = Some rs \<Longrightarrow> map fst rs = us"
  by (induction us arbitrary: rs) (auto split: option.splits if_splits)

lemma cache_match_put_all:
  "cache_match u c \<noteq> None \<or> u \<in> fst ` set rs \<Longrightarrow> cache_match u (put_all rs c) \<noteq> None"
proof (induction rs arbitrary: c)
  case Nil
  then show ?case by (simp add: put_all_def)
next
  case (Cons p rs)
  have step: "put_all (p # rs) c = put_all rs (cache_put (fst p) (snd p) c)"
    by (simp add: put_all_def)
  have "cache_match u (cache_put (fst p) (snd p) c) \<noteq> None \<or> u \<in> fst ` set rs"
    using Cons.prems by (auto simp: cache_match_put)
  then show ?case unfolding step by (rule Cons.IH)
qed

lemma shell_install:
  assumes "install_listener net s = (None, s')"
  shows "shell_cached (caches s')"
proof -
  obtain rs where rs: "fetch_all net ASSETS = Some rs"
    using assms by (auto simp: install_listener_def Let_def split: option.splits)
  have s': "caches s' = with_cache CACHE_NAME (put_all rs) (caches_open CACHE_NAME (caches s))"
    using assms rs by (auto simp: install_listener_def Let_def)
  have "map fst rs = ASSETS" using rs by (rule fetch_all_urls)
  then have "set (map fst rs) = set ASSETS" by simp
  then have "''./index.html'' \<in> fst ` set rs" by (simp add: ASSETS_def)
  then have "cache_match ''./index.html'' (put_all rs c) \<noteq> None" for c
    by (simp add: cache_match_put_all)
  then show ?thesis
    by (simp add: shell_cached_def cached_in_def s' map_of_with_cache map_of_caches_open)
qed

lemma map_of_filter_name: "map_of (filter (\<lambda>p. fst p = n) cs) n = map_of cs n"
  by (induction cs) auto

lemma shell_activate: "shell_cached (caches s) \<Longrightarrow> shell_cached (caches (activate_listener s))"
  by (simp add: shell_cached_def cached_in_def activate_listener_def map_of_filter_name)

lemma shell_put_runtime: "shell_cached (caches s) \<Longrightarrow> shell_cached (caches (put_runtime req r s))"
  by (cases "status r = 206")
    (simp_all add: shell_cached_def cached_in_put_runtime cached_in_put_runtime_refused)

lemma put_runtime_fetched_caches:
  "caches (put_runtime req r (s\<lparr>fetched := f\<rparr>)) = caches (put_runtime req r s)"
  by (simp add: put_runtime_def)

lemma shell_fetch:
  "shell_cached (caches s) \<Longrightarrow> shell_cached (caches (snd (fetch_listener net req s)))"
  by (auto simp: fetch_listener_def Let_def shell_put_runtime put_runtime_fetched_caches
      split: option.splits)

lemma shell_try_activate:
  assumes "phase r = Waiting \<or> phase r = Active \<longrightarrow> shell_cached (caches (worker r))"
  shows "phase (try_activate r) = Waiting \<or> phase (try_activate r) = Active \<longrightarrow>
         shell_cached (caches (worker (try_activate r)))"
  using assms by (auto simp: try_activate_def shell_activate)

lemma shell_dispatch:
  assumes inv: "phase r = Waiting \<or> phase r = Active \<longrightarrow> shell_cached (caches (worker r))"
  shows "phase (dispatch x r) = Waiting \<or> phase (dispatch x r) = Active \<longrightarrow>
         shell_cached (caches (worker (dispatch x r)))"
proof (cases x)
  case (InstallEvent net)
  show ?thesis
  proof (cases "phase r = Installing")
    case False
    then show ?thesis using inv InstallEvent by (simp add: install_event_def)
  next
    case True
    obtain e s' where il: "install_listener net (worker r) = (e, s')"
      by (cases "install_listener net (worker r)")
    show ?thesis
    proof (cases e)
      case (Some err)
      then show ?thesis using il True InstallEvent by (simp add: install_event_def)
    next
      case None
      then have "shell_cached (caches s')" using il shell_install by simp
      then have "phase (r\<lparr>worker := s', phase := Waiting\<rparr>) = Waiting
            \<or> phase (r\<lparr>worker := s', phase := Waiting\<rparr>) = Active
          \<longrightarrow> shell_cached (caches (worker (r\<lparr>worker := s', phase := Waiting\<rparr>)))"
        by simp
      then have "phase (try_activate (r\<lparr>worker := s', phase := Waiting\<rparr>)) = Waiting
            \<or> phase (try_activate (r\<lparr>worker := s', phase := Waiting\<rparr>)) = Active
          \<longrightarrow> shell_cached (caches (worker (try_activate (r\<lparr>worker := s', phase := Waiting\<rparr>))))"
        by (rule shell_try_activate)
      then show ?thesis using il True None InstallEvent by (simp add: install_event_def)
    qed
  qed
next
  case (MessageEvent d)
  have "phase (r\<lparr>worker := message_listener d (worker r)\<rparr>) = Waiting
        \<or> phase (r\<lparr>worker := message_listener d (worker r)\<rparr>) = Active
      \<longrightarrow> shell_cached (caches (worker (r\<lparr>worker := message_listener d (worker r)\<rparr>)))"
    using inv by (simp add: message_listener_def)
  then have "phase (try_activate (r\<lparr>worker := message_listener d (worker r)\<rparr>)) = Waiting
        \<or> phase (try_activate (r\<lparr>worker := message_listener d (worker r)\<rparr>)) = Active
      \<longrightarrow> shell_cached (caches (worker (try_activate (r\<lparr>worker := message_listener d (worker r)\<rparr>))))"
    by (rule shell_try_activate)
  then show ?thesis using inv MessageEvent by (simp add: message_event_def)
next
  case (FetchEvent net req)
  then show ?thesis using inv by (simp add: fetch_event_def shell_fetch)
next
  case PagesClosed
  have "phase (r\<lparr>older_active := False\<rparr>) = Waiting \<or> phase (r\<lparr>older_active := False\<rparr>) = Active
      \<longrightarrow> shell_cached (caches (worker (r\<lparr>older_active := False\<rparr>)))"
    using inv by simp
  then have "phase (try_activate (r\<lparr>older_active := False\<rparr>)) = Waiting
        \<or> phase (try_activate (r\<lparr>older_active := False\<rparr>)) = Active
      \<longrightarrow> shell_cached (caches (worker (try_activate (r\<lparr>older_active := False\<rparr>))))"
    by (rule shell_try_activate)
  then show ?thesis using PagesClosed by (simp add: pages_closed_def)
qed

lemma shell_run_sw:
  "phase r = Waiting \<or> phase r = Active \<longrightarrow> shell_cached (caches (worker r)) \<Longrightarrow>
   phase (run_sw xs r) = Waiting \<or> phase (run_sw xs r) = Active \<longrightarrow>
   shell_cached (caches (worker (run_sw xs r)))"
proof (induction xs arbitrary: r)
  case Nil
  then show ?case by (simp add: run_sw_def)
next
  case (Cons x xs)
  have "run_sw (x # xs) r = run_sw xs (dispatch x r)" by (simp add: run_sw_def)
  then show ?case using Cons.IH [OF shell_dispatch [OF Cons.prems]] by simp
qed

text \<open>
  C8. Offline navigation fallback. Take a generation from its installation through any
  sequence of lifecycle, message and fetch events. Once it is active, a navigation request
  whose network fetch fails is answered with a document, and that document is the cached
  \<^verbatim>\<open>'./index.html'\<close>, the result of \<^verbatim>\<open>caches.match('./index.html')\<close>; the failure is not
  passed on to the page.
\<close>

theorem offline_navigation_fallback:
  assumes "phase r0 = Installing"
    and "r = run_sw xs r0"
    and "phase r = Active"
    and "mode req = Navigate"
    and "net req = None"
  shows "\<exists>doc. fetch_listener net req (worker r) = (Some doc, (worker r)\<lparr>fetched := fetched (worker r) @ [req]\<rparr>)
           \<and> caches_match ''./index.html'' (caches (worker r)) = Some doc"
proof -
  have "phase r0 = Waiting \<or> phase r0 = Active \<longrightarrow> shell_cached (caches (worker r0))"
    using assms(1) by simp
  then have "phase r = Waiting \<or> phase r = Active \<longrightarrow> shell_cached (caches (worker r))"
    unfolding assms(2) by (rule shell_run_sw)
  then have "shell_cached (caches (worker r))" using assms(3) by simp
  then obtain doc where "caches_match ''./index.html'' (caches (worker r)) = Some doc"
    using shell_cached_match by blast
  then show ?thesis using assms(4,5) by (simp add: fetch_listener_def Let_def)
qed

text \<open>The state after a successful installation over an older active generation.\<close>

lemma installed_state:
  "run_sw [InstallEvent net_ok] reg_update
   = \<lparr>worker = \<lparr>caches = [(CACHE_NAME, map (\<lambda>u. (u, page_200)) ASSETS)], skip_waiting = True,
                 fetched = map asset_request ASSETS\<rparr>,
      phase = Active, older_active = False\<rparr>"
  by (simp add: run_sw_def install_event_def install_listener_def try_activate_def
      activate_listener_def caches_open_def with_cache_def put_all_def cache_put_def addable_def
      net_ok_def page_200_def reg_update_def sw_fresh_def ASSETS_def CACHE_NAME_def)

theorem offline_navigation_fallback_witness:
  "phase (run_sw [InstallEvent net_ok] reg_update) = Active
   \<and> fst (fetch_listener net_down nav_history (worker (run_sw [InstallEvent net_ok] reg_update)))
       = Some page_200"
proof -
  have p: "phase reg_update = Installing" by (simp add: reg_update_def)
  have a: "phase (run_sw [InstallEvent net_ok] reg_update) = Active" by (simp add: installed_state)
  have m: "mode nav_history = Navigate" by (simp add: nav_history_def)
  have n: "net_down nav_history = None" by (simp add: net_down_def)
  have "caches_match ''./index.html'' (caches (worker (run_sw [InstallEvent net_ok] reg_update)))
      = Some page_200"
    by (simp add: installed_state cache_match_def ASSETS_def)
  then show ?thesis
    using offline_navigation_fallback [of reg_update "run_sw [InstallEvent net_ok] reg_update"
        "[InstallEvent net_ok]" nav_history net_down, OF p refl a m n] a
    by auto
qed

text \<open>
  C4 (as amended). A newly installed generation does not wait. The install listener calls
  \<^verbatim>\<open>skipWaiting\<close> as soon as all assets are cached, so that a successful install makes the
  generation active at once, with or without an older active generation and without any
  message from the page; an install that cannot cache all assets makes it redundant. The
  literal message \<^verbatim>\<open>'skipWaiting'\<close> requests the same cutover: a generation that is waiting
  becomes active on receiving it. Any other message leaves the worker as it is.
\<close>

theorem install_requests_cutover:
  "(phase r = Installing \<and> fetch_all net ASSETS \<noteq> None \<longrightarrow>
      phase (install_event net r) = Active \<and> skip_waiting (worker (install_event net r)))
   \<and> (phase r = Installing \<and> fetch_all net ASSETS = None \<longrightarrow>
      phase (install_event net r) = Redundant)
   \<and> (phase r2 = Waiting \<longrightarrow> phase (message_event (JStr ''skipWaiting'') r2) = Active)
   \<and> (d \<noteq> JStr ''skipWaiting'' \<longrightarrow> message_listener d s = s)"
  by (auto simp: install_event_def install_listener_def Let_def try_activate_def
      activate_listener_def message_event_def message_listener_def split: option.splits)

theorem install_requests_cutover_witness:
  "phase (install_event net_ok reg_update) = Active
   \<and> phase (install_event net_down reg_update) = Redundant
   \<and> phase (message_event (JStr ''skipWaiting'') reg_waiting) = Active
   \<and> phase (message_event (JStr ''ping'') reg_waiting) = Waiting"
  using install_requests_cutover [of reg_update net_ok] install_requests_cutover [of reg_update net_down]
    install_requests_cutover [where ?r2.0 = reg_waiting and d = "JStr ''ping''" and s = sw_fresh]
  by (simp add: addable_def net_ok_def net_down_def page_200_def reg_update_def reg_waiting_def
      ASSETS_def message_event_def try_activate_def sw_fresh_def)

text \<open>
  The claim as stated fails: with an older generation active and no \<^verbatim>\<open>'skipWaiting'\<close>
  message ever sent, the new generation is active right after its installation; it is never
  waiting.
\<close>

theorem no_waiting_counterexample:
  "older_active reg_update
   \<and> phase (run_sw [InstallEvent net_ok, MessageEvent (JStr ''ping'')] reg_update) = Active
   \<and> phase (run_sw [InstallEvent net_ok] reg_update) \<noteq> Waiting"
  using installed_state
  by (simp add: run_sw_def message_event_def message_listener_def try_activate_def reg_update_def)

end
